theory Spec2Isabelle
  imports Complex_Main "HOL-Library.Word"
begin

section \<open>The limit order book of orderbook.cpp\<close>

text \<open>
  A shallow embedding of \<^verbatim>\<open>src/orderbook/orderbook.cpp\<close>.

  \<^item> \<^verbatim>\<open>uint64_t\<close> (identifiers, quantities, timestamps, counters) is \<open>64 word\<close>: the
    arithmetic of the aggregates and of the counters wraps as it does in C++.
  \<^item> \<^verbatim>\<open>double\<close> prices are read as the real numbers they denote (finite, not NaN); the
    two side maps compare them as reals. The subtraction of \<^verbatim>\<open>amend_order\<close> is the
    double subtraction, which rounds the exact difference to the nearest double
    (\<open>double_sub\<close>), and the tolerance is the double that the literal \<^verbatim>\<open>1e-9\<close> denotes
    (\<open>double_1e_9\<close>).
  \<^item> \<^verbatim>\<open>OrderNode*\<close> is an address (a natural number) into the slots of the memory pool;
    the nodes themselves live in an explicit store, since the Order Index and the queues of
    the levels hold pointers to the same node.
  \<^item> \<^verbatim>\<open>std::map\<close> is an association list kept in the order of its comparator;
    \<^verbatim>\<open>std::unordered_map\<close> is a partial function; \<^verbatim>\<open>std::list\<close> is a list.
  \<^item> Operations take the book and return the new book. Where the C++ would dereference a
    pointer to a destroyed node, or erase through an iterator that is not in the list, the
    model returns \<open>None\<close>; theorem \<open>reachable_no_fault\<close> shows that this never happens
    in a book built through the public operations.
\<close>

subsection \<open>Data\<close>

type_synonym u64 = "64 word"
type_synonym node_ptr = nat

record Order =
  order_id :: u64
  is_buy :: bool
  price :: real
  quantity :: u64
  timestamp_ns :: u64

text \<open>
  \<^verbatim>\<open>struct OrderNode { Order order; std::list<OrderNode*>::iterator level_iterator; }\<close>.
  The iterator is set once, in \<^verbatim>\<open>add_to_side\<close>, to the cell that holds the pointer to
  this very node, and is only used to erase that cell; it is represented by the node's own
  address in the queue (see \<open>remove_from_side\<close>).
\<close>

record OrderNode =
  order :: Order

text \<open>\<^verbatim>\<open>struct PriceLevel\<close> (a snapshot entry) and \<^verbatim>\<open>struct Level\<close>, which has the same two
  fields and the FIFO queue.\<close>

record PriceLevel =
  price :: real
  total_quantity :: u64

record Level = PriceLevel +
  orders :: "node_ptr list"

definition Level_init :: "real \<Rightarrow> Level" where
  "Level_init p = \<lparr>price = p, total_quantity = 0, orders = []\<rparr>"

subsection \<open>Double arithmetic\<close>

text \<open>
  IEEE 754 binary64, round to nearest, ties to even, on the reals. \<open>double_ulp x\<close> is the
  distance between neighbouring doubles around \<open>x\<close>: \<open>2 ^ (e - 52)\<close> for
  \<open>2 ^ e \<le> \<bar>x\<bar> < 2 ^ (e + 1)\<close>, with \<open>e\<close> no less than \<open>- 1022\<close> (below that the doubles
  are subnormal and \<open>2 ^ - 1074\<close> apart). It is found by halving or doubling \<open>\<bar>x\<bar>\<close> until
  it lies in \<open>[1, 2)\<close>; the bounds 1023 and 1022 on the number of steps are the exponent
  range. \<open>double_round x\<close> is the multiple of \<open>double_ulp x\<close> nearest to \<open>x\<close>. A result
  beyond the largest finite double stands for the infinity that the hardware gives; both
  exceed the tolerance, which is the only use made of them.
\<close>

definition round_half_even :: "real \<Rightarrow> int" where
  "round_half_even x =
     (let f = \<lfloor>x\<rfloor>; d = x - of_int f
      in if d < 1 / 2 then f else if 1 / 2 < d then f + 1 else if even f then f else f + 1)"

fun ulp_big :: "nat \<Rightarrow> real \<Rightarrow> real \<Rightarrow> real" where
  "ulp_big n x u = (if n = 0 \<or> x < 2 then u else ulp_big (n - 1) (x / 2) (2 * u))"

fun ulp_small :: "nat \<Rightarrow> real \<Rightarrow> real \<Rightarrow> real" where
  "ulp_small n x u = (if n = 0 \<or> 1 \<le> x then u else ulp_small (n - 1) (2 * x) (u / 2))"

declare ulp_big.simps [simp del]

declare ulp_small.simps [simp del]

definition double_ulp :: "real \<Rightarrow> real" where
  "double_ulp x =
     (if 1 \<le> \<bar>x\<bar> then ulp_big 1023 \<bar>x\<bar> (1 / 2 ^ 52) else ulp_small 1022 \<bar>x\<bar> (1 / 2 ^ 52))"

definition double_round :: "real \<Rightarrow> real" where
  "double_round x =
     (if x = 0 then 0 else of_int (round_half_even (x / double_ulp x)) * double_ulp x)"

text \<open>The subtraction of two doubles, and the double nearest to \<open>1 / 10 ^ 9\<close>, which the
  literal \<^verbatim>\<open>1e-9\<close> denotes (lemma \<open>double_1e_9_literal\<close>); \<^verbatim>\<open>std::abs\<close> is exact.\<close>

definition double_sub :: "real \<Rightarrow> real \<Rightarrow> real" where
  "double_sub a b = double_round (a - b)"

definition double_1e_9 :: real where
  "double_1e_9 = 4835703278458517 / 2 ^ 82"

subsection \<open>MemoryPool\<close>

text \<open>
  \<^verbatim>\<open>MemoryPool<OrderNode, 1024>\<close>. \<open>blocks\<close> counts the allocated blocks; the head block is
  the newest one. Slot \<open>i\<close> of block number \<open>b\<close> (counted from 0) has address
  \<open>b * BlockSize + i\<close>. \<open>slots\<close> holds the nodes constructed in the slots.
\<close>

definition BlockSize :: nat where
  "BlockSize = 1024"

record MemoryPool =
  blocks :: nat
  free_list :: "node_ptr list"
  current_index :: nat
  slots :: "node_ptr \<rightharpoonup> OrderNode"

definition allocate_block :: "MemoryPool \<Rightarrow> MemoryPool" where
  "allocate_block p = p\<lparr>blocks := blocks p + 1, current_index := 0\<rparr>"

definition MemoryPool_init :: MemoryPool where
  "MemoryPool_init =
     allocate_block \<lparr>blocks = 0, free_list = [], current_index = BlockSize, slots = Map.empty\<rparr>"

definition allocate :: "MemoryPool \<Rightarrow> node_ptr \<times> MemoryPool" where
  "allocate p =
     (if free_list p \<noteq> [] then (last (free_list p), p\<lparr>free_list := butlast (free_list p)\<rparr>)
      else
        let p1 = (if current_index p \<ge> BlockSize then allocate_block p else p)
        in ((blocks p1 - 1) * BlockSize + current_index p1,
            p1\<lparr>current_index := current_index p1 + 1\<rparr>))"

text \<open>The placement \<^verbatim>\<open>new (node) OrderNode(order)\<close> of \<^verbatim>\<open>add_order\<close>.\<close>

definition construct :: "MemoryPool \<Rightarrow> node_ptr \<Rightarrow> OrderNode \<Rightarrow> MemoryPool" where
  "construct p ptr node = p\<lparr>slots := (slots p)(ptr \<mapsto> node)\<rparr>"

text \<open>\<^verbatim>\<open>deallocate\<close> destroys the node and pushes the slot on the free list (an address is
  never the null pointer).\<close>

definition deallocate :: "MemoryPool \<Rightarrow> node_ptr \<Rightarrow> MemoryPool" where
  "deallocate p ptr = p\<lparr>slots := (slots p)(ptr := None), free_list := free_list p @ [ptr]\<rparr>"

subsection \<open>Side maps\<close>

text \<open>
  \<^verbatim>\<open>std::map<double, Level, Compare>\<close>: the entries in iteration order. \<open>side_find\<close> is
  \<^verbatim>\<open>find\<close>, \<open>side_emplace\<close> inserts an entry for a key that is absent, at the place the
  comparator gives it, \<open>side_assign\<close> is a write through the reference to the mapped level,
  \<open>side_erase\<close> is \<^verbatim>\<open>erase\<close>.
\<close>

type_synonym side_map = "(real \<times> Level) list"

definition side_find :: "side_map \<Rightarrow> real \<Rightarrow> Level option" where
  "side_find side k = map_of side k"

fun side_emplace :: "(real \<Rightarrow> real \<Rightarrow> bool) \<Rightarrow> real \<Rightarrow> Level \<Rightarrow> side_map \<Rightarrow> side_map" where
  "side_emplace cmp k v [] = [(k, v)]"
| "side_emplace cmp k v (e # m) =
     (if cmp k (fst e) then (k, v) # e # m else e # side_emplace cmp k v m)"

definition side_assign :: "real \<Rightarrow> Level \<Rightarrow> side_map \<Rightarrow> side_map" where
  "side_assign k v side = map (\<lambda>e. if fst e = k then (k, v) else e) side"

definition side_erase :: "real \<Rightarrow> side_map \<Rightarrow> side_map" where
  "side_erase k side = filter (\<lambda>e. fst e \<noteq> k) side"

text \<open>The body of \<^verbatim>\<open>add_to_side\<close> after the level has been located.\<close>

definition push_node :: "Level \<Rightarrow> node_ptr \<Rightarrow> OrderNode \<Rightarrow> Level" where
  "push_node level ptr node =
     level\<lparr>price := Order.price (order node),
           orders := orders level @ [ptr],
           total_quantity := total_quantity level + quantity (order node)\<rparr>"

text \<open>
  Modelled from the spec: the level that \<^verbatim>\<open>side[node->order.price]\<close> creates for a price
  that has no level. The source declares no default constructor for \<^verbatim>\<open>Level\<close>, only
  \<^verbatim>\<open>Level(double p)\<close>; the spec (4.3) says that the new level has zero aggregate and an
  empty queue, which is \<open>Level_init\<close>. Its price is assigned right after, so the result
  does not depend on the price it is created with.
\<close>

definition add_to_side ::
  "(real \<Rightarrow> real \<Rightarrow> bool) \<Rightarrow> side_map \<Rightarrow> node_ptr \<Rightarrow> OrderNode \<Rightarrow> side_map" where
  "add_to_side cmp side ptr node =
     (let p = Order.price (order node) in
      case side_find side p of
        None \<Rightarrow> side_emplace cmp p (push_node (Level_init p) ptr node) side
      | Some level \<Rightarrow> side_assign p (push_node level ptr node) side)"

text \<open>
  \<^verbatim>\<open>remove_from_side\<close>. \<^verbatim>\<open>level.orders.erase(node->level_iterator)\<close> erases the cell
  that holds this node's address; where the queue of the level does not hold the address,
  the iterator belongs to another list and the C++ is undefined (\<open>None\<close>). No queue of a
  reachable book holds an address twice (\<open>reachable_book_inv\<close>), so removing the address
  removes that cell.
\<close>

definition remove_from_side :: "side_map \<Rightarrow> node_ptr \<Rightarrow> OrderNode \<Rightarrow> side_map option" where
  "remove_from_side side ptr node =
     (let p = Order.price (order node) in
      case side_find side p of
        None \<Rightarrow> Some side
      | Some level \<Rightarrow>
          if ptr \<notin> set (orders level) then None
          else
            let level' = level\<lparr>orders := remove1 ptr (orders level),
                               total_quantity := total_quantity level - quantity (order node)\<rparr>
            in Some (if orders level' = [] then side_erase p side
                     else side_assign p level' side))"

text \<open>\<^verbatim>\<open>update_quantity_in_place\<close> writes the level and the node; it returns both.\<close>

definition update_quantity_in_place :: "side_map \<Rightarrow> OrderNode \<Rightarrow> u64 \<Rightarrow> side_map \<times> OrderNode" where
  "update_quantity_in_place side node new_quantity =
     (let p = Order.price (order node) in
      case side_find side p of
        None \<Rightarrow> (side, node)
      | Some level \<Rightarrow>
          (side_assign p
             (level\<lparr>total_quantity :=
                      total_quantity level - quantity (order node) + new_quantity\<rparr>) side,
           node\<lparr>order := (order node)\<lparr>quantity := new_quantity\<rparr>\<rparr>))"

subsection \<open>OrderBook\<close>

record OrderBook =
  order_pool :: MemoryPool
  bid_levels :: side_map
  ask_levels :: side_map
  order_lookup :: "u64 \<rightharpoonup> node_ptr"
  total_orders :: u64
  total_cancels :: u64
  total_amends :: u64

definition OrderBook_init :: OrderBook where
  "OrderBook_init =
     \<lparr>order_pool = MemoryPool_init, bid_levels = [], ask_levels = [],
      order_lookup = Map.empty, total_orders = 0, total_cancels = 0, total_amends = 0\<rparr>"

definition add_order :: "Order \<Rightarrow> OrderBook \<Rightarrow> OrderBook" where
  "add_order ord s =
     (let (ptr, pool1) = allocate (order_pool s);
          node = \<lparr>order = ord\<rparr>;
          s1 = s\<lparr>order_pool := construct pool1 ptr node,
                 order_lookup := (order_lookup s)(order_id ord \<mapsto> ptr)\<rparr>;
          s2 = (if is_buy ord
                then s1\<lparr>bid_levels := add_to_side (>) (bid_levels s1) ptr node\<rparr>
                else s1\<lparr>ask_levels := add_to_side (<) (ask_levels s1) ptr node\<rparr>)
      in s2\<lparr>total_orders := total_orders s2 + 1\<rparr>)"

definition cancel_order :: "u64 \<Rightarrow> OrderBook \<Rightarrow> (bool \<times> OrderBook) option" where
  "cancel_order oid s =
     (case order_lookup s oid of
        None \<Rightarrow> Some (False, s)
      | Some ptr \<Rightarrow>
         (case slots (order_pool s) ptr of
            None \<Rightarrow> None
          | Some node \<Rightarrow>
             (case (if is_buy (order node)
                    then map_option (\<lambda>m. s\<lparr>bid_levels := m\<rparr>)
                           (remove_from_side (bid_levels s) ptr node)
                    else map_option (\<lambda>m. s\<lparr>ask_levels := m\<rparr>)
                           (remove_from_side (ask_levels s) ptr node)) of
                None \<Rightarrow> None
              | Some s1 \<Rightarrow>
                  Some (True,
                        s1\<lparr>order_lookup := (order_lookup s1)(oid := None),
                           order_pool := deallocate (order_pool s1) ptr,
                           total_cancels := total_cancels s1 + 1\<rparr>))))"

text \<open>
  \<^verbatim>\<open>amend_order\<close>. The reading of the clock is the parameter \<open>now\<close>. The result of the
  inner \<^verbatim>\<open>cancel_order\<close> is dropped, as in the source. On the quantity-only path the
  node that \<open>update_quantity_in_place\<close> returns is written back to its slot.
\<close>

definition amend_order :: "u64 \<Rightarrow> real \<Rightarrow> u64 \<Rightarrow> u64 \<Rightarrow> OrderBook \<Rightarrow> (bool \<times> OrderBook) option" where
  "amend_order oid new_price new_quantity now s =
     (case order_lookup s oid of
        None \<Rightarrow> Some (False, s)
      | Some ptr \<Rightarrow>
         (case slots (order_pool s) ptr of
            None \<Rightarrow> None
          | Some node \<Rightarrow>
              if \<bar>double_sub (Order.price (order node)) new_price\<bar> > double_1e_9 then
                (let new_order = (order node)\<lparr>Order.price := new_price,
                                              quantity := new_quantity,
                                              timestamp_ns := now\<rparr>
                 in case cancel_order oid s of
                      None \<Rightarrow> None
                    | Some (_, s1) \<Rightarrow>
                        let s2 = add_order new_order s1
                        in Some (True, s2\<lparr>total_amends := total_amends s2 + 1\<rparr>))
              else
                (let s1 = (if is_buy (order node)
                           then (case update_quantity_in_place (bid_levels s) node new_quantity of
                                   (m, node') \<Rightarrow>
                                     s\<lparr>bid_levels := m,
                                       order_pool := construct (order_pool s) ptr node'\<rparr>)
                           else (case update_quantity_in_place (ask_levels s) node new_quantity of
                                   (m, node') \<Rightarrow>
                                     s\<lparr>ask_levels := m,
                                       order_pool := construct (order_pool s) ptr node'\<rparr>))
                 in Some (True, s1\<lparr>total_amends := total_amends s1 + 1\<rparr>))))"

text \<open>\<^verbatim>\<open>get_snapshot\<close>: the loop over one side, with its counter; the two output vectors
  are the result.\<close>

fun snapshot_side :: "nat \<Rightarrow> nat \<Rightarrow> side_map \<Rightarrow> PriceLevel list" where
  "snapshot_side depth count [] = []"
| "snapshot_side depth count (e # m) =
     (if count \<ge> depth then []
      else \<lparr>price = fst e, total_quantity = total_quantity (snd e)\<rparr>
             # snapshot_side depth (count + 1) m)"

definition get_snapshot :: "nat \<Rightarrow> OrderBook \<Rightarrow> PriceLevel list \<times> PriceLevel list" where
  "get_snapshot depth s = (snapshot_side depth 0 (bid_levels s), snapshot_side depth 0 (ask_levels s))"

text \<open>\<^verbatim>\<open>std::numeric_limits<double>::max()\<close>, the largest finite double.\<close>

definition DBL_MAX :: real where
  "DBL_MAX = (2 ^ 53 - 1) * 2 ^ 971"

definition get_best_prices :: "OrderBook \<Rightarrow> real \<times> real" where
  "get_best_prices s =
     (let best_bid = (case bid_levels s of [] \<Rightarrow> 0 | e # _ \<Rightarrow> fst e);
          best_ask = (case ask_levels s of [] \<Rightarrow> DBL_MAX | e # _ \<Rightarrow> fst e)
      in (best_bid, best_ask))"

subsection \<open>Sequences of operations\<close>

text \<open>The public mutating operations as data, and their effect on the book; \<open>None\<close> is the
  undefined behaviour described above.\<close>

datatype op = Add Order | Cancel u64 | Amend u64 real u64 u64

fun apply_op :: "op \<Rightarrow> OrderBook \<Rightarrow> OrderBook option" where
  "apply_op (Add ord) s = Some (add_order ord s)"
| "apply_op (Cancel oid) s = map_option snd (cancel_order oid s)"
| "apply_op (Amend oid p q now) s = map_option snd (amend_order oid p q now s)"

text \<open>The books that a sequence of calls builds from the empty book.\<close>

inductive reachable :: "OrderBook \<Rightarrow> bool" where
  init: "reachable OrderBook_init"
| add: "reachable s \<Longrightarrow> reachable (add_order ord s)"
| cancel: "reachable s \<Longrightarrow> cancel_order oid s = Some (r, s') \<Longrightarrow> reachable s'"
| amend: "reachable s \<Longrightarrow> amend_order oid p q now s = Some (r, s') \<Longrightarrow> reachable s'"

subsection \<open>Vocabulary of the properties\<close>

text \<open>The side map of a side (\<open>True\<close> for bids) and its comparator.\<close>

definition side_of :: "OrderBook \<Rightarrow> bool \<Rightarrow> side_map" where
  "side_of s b = (if b then bid_levels s else ask_levels s)"

definition cmp_of :: "bool \<Rightarrow> real \<Rightarrow> real \<Rightarrow> bool" where
  "cmp_of b = (if b then (>) else (<))"

text \<open>The level and the queue at a price; a price without a level has the empty queue.\<close>

definition level_at :: "side_map \<Rightarrow> real \<Rightarrow> Level" where
  "level_at m p = (case side_find m p of None \<Rightarrow> Level_init p | Some l \<Rightarrow> l)"

definition queue_at :: "side_map \<Rightarrow> real \<Rightarrow> node_ptr list" where
  "queue_at m p = (case side_find m p of None \<Rightarrow> [] | Some l \<Rightarrow> orders l)"

text \<open>The quantity of the record at an address, and the sum over a queue, in \<^verbatim>\<open>uint64_t\<close>
  arithmetic.\<close>

definition node_quantity :: "(node_ptr \<rightharpoonup> OrderNode) \<Rightarrow> node_ptr \<Rightarrow> u64" where
  "node_quantity h a = (case h a of None \<Rightarrow> 0 | Some n \<Rightarrow> quantity (order n))"

definition queue_quantity :: "(node_ptr \<rightharpoonup> OrderNode) \<Rightarrow> node_ptr list \<Rightarrow> u64" where
  "queue_quantity h q = sum_list (map (node_quantity h) q)"

text \<open>The aggregates of a side, summed over its levels.\<close>

definition side_total :: "side_map \<Rightarrow> u64" where
  "side_total m = sum_list (map (\<lambda>e. total_quantity (snd e)) m)"

text \<open>The same sums over the quantities as numbers, without wrap-around: of a queue, and of
  the aggregates of a side.\<close>

definition queue_units :: "(node_ptr \<rightharpoonup> OrderNode) \<Rightarrow> node_ptr list \<Rightarrow> nat" where
  "queue_units h q = sum_list (map (\<lambda>a. unat (node_quantity h a)) q)"

definition side_units :: "side_map \<Rightarrow> nat" where
  "side_units m = sum_list (map (\<lambda>e. unat (total_quantity (snd e))) m)"

text \<open>The addresses the pool has handed out so far lie below \<open>pool_bound\<close>.\<close>

definition pool_bound :: "MemoryPool \<Rightarrow> nat" where
  "pool_bound p = (blocks p - 1) * BlockSize + current_index p"

text \<open>The resting records of a side: the nodes that are alive in the pool and carry that
  side, whether or not the Order Index still names them.\<close>

definition resting_ptrs :: "OrderBook \<Rightarrow> bool \<Rightarrow> node_ptr list" where
  "resting_ptrs s b =
     filter (\<lambda>a. case slots (order_pool s) a of None \<Rightarrow> False
                 | Some n \<Rightarrow> is_buy (order n) = b)
       [0 ..< pool_bound (order_pool s)]"

definition resting_quantity :: "OrderBook \<Rightarrow> bool \<Rightarrow> u64" where
  "resting_quantity s b = sum_list (map (node_quantity (slots (order_pool s))) (resting_ptrs s b))"

definition resting_units :: "OrderBook \<Rightarrow> bool \<Rightarrow> nat" where
  "resting_units s b = queue_units (slots (order_pool s)) (resting_ptrs s b)"

text \<open>
  A level is well formed in a store: its price is its key, its queue is not empty and
  holds no address twice, its aggregate is the sum of its queue, and its queue holds live
  records of its side and price.
\<close>

definition level_ok :: "(node_ptr \<rightharpoonup> OrderNode) \<Rightarrow> bool \<Rightarrow> real \<Rightarrow> Level \<Rightarrow> bool" where
  "level_ok h b p l \<longleftrightarrow>
     price l = p \<and> orders l \<noteq> [] \<and> distinct (orders l) \<and>
     total_quantity l = queue_quantity h (orders l) \<and>
     (\<forall>a\<in>set (orders l). \<exists>n. h a = Some n \<and> is_buy (order n) = b \<and> Order.price (order n) = p)"

definition pool_ok :: "MemoryPool \<Rightarrow> bool" where
  "pool_ok p \<longleftrightarrow>
     1 \<le> blocks p \<and> current_index p \<le> BlockSize \<and> distinct (free_list p) \<and>
     dom (slots p) \<inter> set (free_list p) = {} \<and>
     dom (slots p) \<union> set (free_list p) = {a. a < pool_bound p}"

text \<open>
  The invariant of the book: the pool is well formed, both side maps are in the order of
  their comparator, every level is well formed, every live record is queued in the level of
  its side and price, and every entry of the Order Index names a live record with that
  identifier.
\<close>

definition book_inv :: "OrderBook \<Rightarrow> bool" where
  "book_inv s \<longleftrightarrow>
     pool_ok (order_pool s) \<and>
     (\<forall>b. sorted_wrt (cmp_of b) (map fst (side_of s b))) \<and>
     (\<forall>b p l. side_find (side_of s b) p = Some l \<longrightarrow> level_ok (slots (order_pool s)) b p l) \<and>
     (\<forall>a n. slots (order_pool s) a = Some n \<longrightarrow>
        (\<exists>l. side_find (side_of s (is_buy (order n))) (Order.price (order n)) = Some l \<and>
             a \<in> set (orders l))) \<and>
     (\<forall>oid a. order_lookup s oid = Some a \<longrightarrow>
        (\<exists>n. slots (order_pool s) a = Some n \<and> order_id (order n) = oid))"

text \<open>The book that \<open>cancel_order\<close> returns for a resting identifier, given the node and
  the side map that \<open>remove_from_side\<close> produced.\<close>

definition cancelled :: "OrderBook \<Rightarrow> u64 \<Rightarrow> node_ptr \<Rightarrow> OrderNode \<Rightarrow> side_map \<Rightarrow> OrderBook" where
  "cancelled s oid ptr node m =
     (if is_buy (order node) then s\<lparr>bid_levels := m\<rparr> else s\<lparr>ask_levels := m\<rparr>)
       \<lparr>order_lookup := (order_lookup s)(oid := None),
        order_pool := deallocate (order_pool s) ptr,
        total_cancels := total_cancels s + 1\<rparr>"

text \<open>The book that the quantity-only path of \<open>amend_order\<close> returns.\<close>

definition requantified :: "OrderBook \<Rightarrow> node_ptr \<Rightarrow> OrderNode \<Rightarrow> u64 \<Rightarrow> OrderBook" where
  "requantified s ptr node q =
     (case update_quantity_in_place (side_of s (is_buy (order node))) node q of
        (m, node') \<Rightarrow>
          (if is_buy (order node) then s\<lparr>bid_levels := m\<rparr> else s\<lparr>ask_levels := m\<rparr>)
            \<lparr>order_pool := construct (order_pool s) ptr node',
             total_amends := total_amends s + 1\<rparr>)"

text \<open>The book that the price-changing path of \<open>amend_order\<close> returns: the cancelled
  book, with the amended order added.\<close>

definition repriced ::
  "OrderBook \<Rightarrow> u64 \<Rightarrow> node_ptr \<Rightarrow> OrderNode \<Rightarrow> side_map \<Rightarrow> real \<Rightarrow> u64 \<Rightarrow> u64 \<Rightarrow> OrderBook" where
  "repriced s oid ptr node m new_price q now =
     (let s2 = add_order ((order node)\<lparr>Order.price := new_price, quantity := q,
                                        timestamp_ns := now\<rparr>)
                 (cancelled s oid ptr node m)
      in s2\<lparr>total_amends := total_amends s2 + 1\<rparr>)"

text \<open>
  Arrival order. A record enters a queue in a step when it is in a queue of the new book
  and was not in the queue of that side and price before. \<open>run_stamped\<close> runs a sequence
  of operations and stamps every record with the number of the operation at which it last
  entered a queue.
\<close>

definition entered :: "OrderBook \<Rightarrow> OrderBook \<Rightarrow> node_ptr \<Rightarrow> bool" where
  "entered s s' a \<longleftrightarrow>
     (\<exists>b\<in>{True, False}. \<exists>e\<in>set (side_of s' b).
        a \<in> set (orders (snd e)) \<and> a \<notin> set (queue_at (side_of s b) (fst e)))"

fun run_stamped ::
  "op list \<Rightarrow> nat \<Rightarrow> OrderBook \<Rightarrow> (node_ptr \<Rightarrow> nat) \<Rightarrow> (OrderBook \<times> (node_ptr \<Rightarrow> nat)) option" where
  "run_stamped [] k s t = Some (s, t)"
| "run_stamped (x # xs) k s t =
     (case apply_op x s of
        None \<Rightarrow> None
      | Some s' \<Rightarrow> run_stamped xs (k + 1) s' (\<lambda>a. if entered s s' a then k else t a))"

text \<open>The stamps agree with a book at step \<open>k\<close>: along every queue, front to back, they
  increase strictly, and they are below \<open>k\<close>.\<close>

definition stamps_ok :: "nat \<Rightarrow> OrderBook \<Rightarrow> (node_ptr \<Rightarrow> nat) \<Rightarrow> bool" where
  "stamps_ok k s t \<longleftrightarrow>
     (\<forall>b p. sorted_wrt (<) (map t (queue_at (side_of s b) p)) \<and>
            (\<forall>a\<in>set (queue_at (side_of s b) p). t a < k))"

subsection \<open>The orders of the test harness\<close>

text \<open>Orders that \<^verbatim>\<open>OrderBookTester::run_basic_test\<close> adds to its book; the examples below
  run on them.\<close>

definition order_1001 :: Order where
  "order_1001 = \<lparr>order_id = 1001, is_buy = True, price = 100, quantity = 100,
                  timestamp_ns = 1000000\<rparr>"

definition order_1002 :: Order where
  "order_1002 = \<lparr>order_id = 1002, is_buy = True, price = 199 / 2, quantity = 200,
                  timestamp_ns = 2000000\<rparr>"

definition order_1003 :: Order where
  "order_1003 = \<lparr>order_id = 1003, is_buy = True, price = 100, quantity = 150,
                  timestamp_ns = 3000000\<rparr>"

definition order_2001 :: Order where
  "order_2001 = \<lparr>order_id = 2001, is_buy = False, price = 101, quantity = 100,
                  timestamp_ns = 5000000\<rparr>"

definition order_2003 :: Order where
  "order_2003 = \<lparr>order_id = 2003, is_buy = False, price = 101, quantity = 150,
                  timestamp_ns = 7000000\<rparr>"

section \<open>Properties\<close>

subsection \<open>Side maps\<close>

lemma cmp_of_irrefl: "\<not> cmp_of b x x"
  by (simp add: cmp_of_def)

lemma cmp_of_trans: "cmp_of b x y \<Longrightarrow> cmp_of b y z \<Longrightarrow> cmp_of b x z"
  by (auto simp: cmp_of_def)

lemma cmp_of_total: "x \<noteq> y \<Longrightarrow> \<not> cmp_of b x y \<Longrightarrow> cmp_of b y x"
  by (auto simp: cmp_of_def)

lemma sorted_keys_distinct: "sorted_wrt (cmp_of b) ks \<Longrightarrow> distinct ks"
  by (induction ks) (auto simp: cmp_of_irrefl)

lemma side_find_None_iff: "side_find m k = None \<longleftrightarrow> k \<notin> fst ` set m"
  by (simp add: side_find_def map_of_eq_None_iff)

lemma side_find_SomeD: "side_find m k = Some l \<Longrightarrow> (k, l) \<in> set m"
  by (simp add: side_find_def map_of_SomeD)

lemma side_find_is_Some: "distinct (map fst m) \<Longrightarrow> (k, l) \<in> set m \<Longrightarrow> side_find m k = Some l"
  by (simp add: side_find_def)

lemma keys_side_emplace: "set (map fst (side_emplace cmp k v m)) = insert k (set (map fst m))"
  by (induction m) auto

lemma sorted_side_emplace:
  "sorted_wrt (cmp_of b) (map fst m) \<Longrightarrow> k \<notin> fst ` set m \<Longrightarrow>
   sorted_wrt (cmp_of b) (map fst (side_emplace (cmp_of b) k v m))"
proof (induction m)
  case Nil
  then show ?case by simp
next
  case (Cons e m)
  show ?case
  proof (cases "cmp_of b k (fst e)")
    case True
    with Cons.prems show ?thesis
      by (auto intro: cmp_of_trans)
  next
    case False
    with Cons.prems have "cmp_of b (fst e) k"
      by (auto intro: cmp_of_total)
    with False Cons show ?thesis
      using keys_side_emplace [of "cmp_of b" k v m] by auto
  qed
qed

lemma side_find_emplace:
  "side_find m k = None \<Longrightarrow>
   side_find (side_emplace cmp k v m) k' = (if k' = k then Some v else side_find m k')"
  by (induction m) (auto simp: side_find_def split: if_splits)

lemma keys_side_assign: "map fst (side_assign k v m) = map fst m"
  by (induction m) (auto simp: side_assign_def)

lemma side_find_assign:
  "side_find (side_assign k v m) k' =
     (if k' = k \<and> side_find m k \<noteq> None then Some v else side_find m k')"
  by (induction m) (auto simp: side_find_def side_assign_def)

lemma keys_side_erase: "map fst (side_erase k m) = filter (\<lambda>x. x \<noteq> k) (map fst m)"
  by (induction m) (auto simp: side_erase_def)

lemma side_find_erase:
  "side_find (side_erase k m) k' = (if k' = k then None else side_find m k')"
  by (induction m) (auto simp: side_find_def side_erase_def)

lemma sorted_side_erase:
  "sorted_wrt cmp (map fst m) \<Longrightarrow> sorted_wrt cmp (map fst (side_erase k m))"
  by (simp add: keys_side_erase sorted_wrt_filter)

lemma side_find_add_to_side:
  "side_find (add_to_side cmp m ptr node) k =
     (if k = Order.price (order node)
      then Some (push_node (level_at m (Order.price (order node))) ptr node)
      else side_find m k)"
  by (simp add: add_to_side_def Let_def level_at_def side_find_emplace side_find_assign
           split: option.splits)

lemma sorted_add_to_side:
  "sorted_wrt (cmp_of b) (map fst m) \<Longrightarrow>
   sorted_wrt (cmp_of b) (map fst (add_to_side (cmp_of b) m ptr node))"
  by (simp add: add_to_side_def Let_def keys_side_assign sorted_side_emplace side_find_None_iff
           split: option.splits)

lemma remove_from_side_Some:
  "side_find m (Order.price (order node)) = Some l \<Longrightarrow> ptr \<in> set (orders l) \<Longrightarrow>
   remove_from_side m ptr node =
     Some (if remove1 ptr (orders l) = [] then side_erase (Order.price (order node)) m
           else side_assign (Order.price (order node))
                  (l\<lparr>orders := remove1 ptr (orders l),
                     total_quantity := total_quantity l - quantity (order node)\<rparr>) m)"
  by (simp add: remove_from_side_def)

lemma side_find_remove_from_side:
  "remove_from_side m ptr node = Some m' \<Longrightarrow>
   side_find m' k =
     (if k = Order.price (order node)
      then (case side_find m k of
              None \<Rightarrow> None
            | Some l \<Rightarrow>
                if remove1 ptr (orders l) = [] then None
                else Some (l\<lparr>orders := remove1 ptr (orders l),
                             total_quantity := total_quantity l - quantity (order node)\<rparr>))
      else side_find m k)"
  by (auto simp: remove_from_side_def Let_def side_find_erase side_find_assign
           split: option.splits if_splits)

lemma sorted_remove_from_side:
  "remove_from_side m ptr node = Some m' \<Longrightarrow> sorted_wrt cmp (map fst m) \<Longrightarrow>
   sorted_wrt cmp (map fst m')"
  by (auto simp: remove_from_side_def Let_def keys_side_assign sorted_side_erase
           split: option.splits if_splits)

lemma update_quantity_in_place_Some:
  "side_find m (Order.price (order node)) = Some l \<Longrightarrow>
   update_quantity_in_place m node q =
     (side_assign (Order.price (order node))
        (l\<lparr>total_quantity := total_quantity l - quantity (order node) + q\<rparr>) m,
      node\<lparr>order := (order node)\<lparr>quantity := q\<rparr>\<rparr>)"
  by (simp add: update_quantity_in_place_def)

subsection \<open>Queues and the store\<close>

lemma queue_quantity_cong:
  "(\<And>a. a \<in> set q \<Longrightarrow> h' a = h a) \<Longrightarrow> queue_quantity h' q = queue_quantity h q"
  unfolding queue_quantity_def node_quantity_def
  by (rule arg_cong [where f = sum_list]) simp

lemma queue_quantity_snoc:
  "queue_quantity h (q @ [a]) = queue_quantity h q + node_quantity h a"
  by (simp add: queue_quantity_def)

lemma queue_quantity_remove1:
  "a \<in> set q \<Longrightarrow> queue_quantity h (remove1 a q) = queue_quantity h q - node_quantity h a"
  by (simp add: queue_quantity_def sum_list_map_remove1 [of a q])

lemma queue_quantity_upd_notin:
  "a \<notin> set q \<Longrightarrow> queue_quantity (h(a := v)) q = queue_quantity h q"
  by (rule queue_quantity_cong) auto

lemma queue_quantity_Cons:
  "queue_quantity h (x # q) = node_quantity h x + queue_quantity h q"
  by (simp add: queue_quantity_def)

lemma node_quantity_upd:
  "node_quantity (h(a \<mapsto> n)) x = (if x = a then quantity (order n) else node_quantity h x)"
  by (simp add: node_quantity_def)

lemma queue_quantity_upd_in:
  assumes "a \<in> set q" and "distinct q"
  shows "queue_quantity (h(a \<mapsto> n)) q =
         queue_quantity h q - node_quantity h a + quantity (order n)"
proof -
  let ?h = "h(a \<mapsto> n)"
  from assms have "a \<notin> set (remove1 a q)" by simp
  then have rest: "queue_quantity ?h (remove1 a q) = queue_quantity h (remove1 a q)"
    by (rule queue_quantity_upd_notin)
  have split: "queue_quantity ?h q = node_quantity ?h a + queue_quantity ?h (remove1 a q)"
    using assms(1) by (simp add: queue_quantity_def sum_list_map_remove1 [of a q])
  have here: "node_quantity ?h a = quantity (order n)"
    by (simp add: node_quantity_upd)
  show ?thesis
    unfolding split here rest using assms(1) by (simp add: queue_quantity_remove1)
qed

lemma level_ok_cong:
  "level_ok h b p l \<Longrightarrow> (\<And>a. a \<in> set (orders l) \<Longrightarrow> h' a = h a) \<Longrightarrow> level_ok h' b p l"
  unfolding level_ok_def using queue_quantity_cong [of "orders l" h' h] by auto

lemma level_ok_live: "level_ok h b p l \<Longrightarrow> a \<in> set (orders l) \<Longrightarrow> h a \<noteq> None"
  by (auto simp: level_ok_def)

subsection \<open>The pool\<close>

lemma pool_ok_init: "pool_ok MemoryPool_init"
  by (simp add: pool_ok_def MemoryPool_init_def allocate_block_def pool_bound_def)

lemma pool_bound_upd:
  "pool_bound (p\<lparr>slots := h\<rparr>) = pool_bound p"
  "pool_bound (p\<lparr>free_list := f\<rparr>) = pool_bound p"
  by (simp_all add: pool_bound_def)

lemma slots_allocate: "slots (snd (allocate p)) = slots p"
  by (simp add: allocate_def allocate_block_def Let_def)

lemma allocate_bump:
  assumes "pool_ok p" and "free_list p = []"
  shows "fst (allocate p) = pool_bound p"
    and "pool_bound (snd (allocate p)) = pool_bound p + 1"
    and "free_list (snd (allocate p)) = []"
    and "1 \<le> blocks (snd (allocate p))"
    and "current_index (snd (allocate p)) \<le> BlockSize"
proof -
  from assms(1) have b: "1 \<le> blocks p" and c: "current_index p \<le> BlockSize"
    by (simp_all add: pool_ok_def)
  show "fst (allocate p) = pool_bound p"
  proof (cases "current_index p \<ge> BlockSize")
    case True
    with c have "current_index p = BlockSize" by simp
    with b assms(2) show ?thesis
      by (cases "blocks p") (simp_all add: allocate_def allocate_block_def pool_bound_def)
  next
    case False
    with assms(2) show ?thesis
      by (simp add: allocate_def pool_bound_def)
  qed
  show "pool_bound (snd (allocate p)) = pool_bound p + 1"
  proof (cases "current_index p \<ge> BlockSize")
    case True
    with c have "current_index p = BlockSize" by simp
    with b assms(2) show ?thesis
      by (cases "blocks p") (simp_all add: allocate_def allocate_block_def pool_bound_def)
  next
    case False
    with assms(2) show ?thesis
      by (simp add: allocate_def pool_bound_def)
  qed
  show "free_list (snd (allocate p)) = []"
    using assms(2) by (simp add: allocate_def allocate_block_def Let_def)
  show "1 \<le> blocks (snd (allocate p))"
    using assms(2) b by (simp add: allocate_def allocate_block_def Let_def)
  show "current_index (snd (allocate p)) \<le> BlockSize"
    using assms(2) c by (auto simp: allocate_def allocate_block_def Let_def BlockSize_def)
qed

lemma allocate_reuse:
  assumes "free_list p \<noteq> []"
  shows "fst (allocate p) = last (free_list p)"
    and "snd (allocate p) = p\<lparr>free_list := butlast (free_list p)\<rparr>"
  using assms by (simp_all add: allocate_def)

lemma allocate_fresh:
  assumes "pool_ok p"
  shows "slots p (fst (allocate p)) = None"
proof (cases "free_list p = []")
  case True
  from assms have "dom (slots p) \<subseteq> {a. a < pool_bound p}"
    by (auto simp: pool_ok_def)
  then have "pool_bound p \<notin> dom (slots p)" by auto
  with allocate_bump(1) [OF assms True] show ?thesis by auto
next
  case False
  then have "last (free_list p) \<in> set (free_list p)" by simp
  with assms have "last (free_list p) \<notin> dom (slots p)"
    by (auto simp: pool_ok_def)
  with allocate_reuse(1) [OF False] show ?thesis by auto
qed

lemma pool_ok_allocate:
  assumes "pool_ok p"
  shows "pool_ok (construct (snd (allocate p)) (fst (allocate p)) node)"
proof (cases "free_list p = []")
  case True
  from assms True have d: "dom (slots p) = {a. a < pool_bound p}"
    by (simp add: pool_ok_def)
  have "{a. a < pool_bound p + 1} = insert (pool_bound p) {a. a < pool_bound p}"
    by auto
  with d allocate_bump [OF assms True] show ?thesis
    by (simp add: pool_ok_def construct_def slots_allocate pool_bound_upd)
next
  case False
  then have f: "set (free_list p) = insert (last (free_list p)) (set (butlast (free_list p)))"
    by (metis append_butlast_last_id list.simps(15) rotate1.simps(2) set_rotate1)
  from assms have dis: "distinct (free_list p)" by (simp add: pool_ok_def)
  with False have nl: "last (free_list p) \<notin> set (butlast (free_list p))"
    by (metis append_butlast_last_id distinct_butlast not_distinct_conv_prefix)
  from assms have "dom (slots p) \<inter> set (free_list p) = {}"
    and "dom (slots p) \<union> set (free_list p) = {a. a < pool_bound p}"
    and "1 \<le> blocks p" and "current_index p \<le> BlockSize"
    by (simp_all add: pool_ok_def)
  with f nl dis show ?thesis
    unfolding allocate_reuse [OF False]
    by (auto simp: pool_ok_def construct_def pool_bound_def distinct_butlast)
qed

lemma pool_ok_construct:
  "pool_ok p \<Longrightarrow> slots p a \<noteq> None \<Longrightarrow> pool_ok (construct p a node)"
  by (auto simp: pool_ok_def construct_def pool_bound_def insert_absorb domI)

lemma pool_ok_deallocate:
  "pool_ok p \<Longrightarrow> slots p a \<noteq> None \<Longrightarrow> pool_ok (deallocate p a)"
  by (auto simp: pool_ok_def deallocate_def pool_bound_def)

subsection \<open>The effect of the operations on the fields of the book\<close>

lemma add_order_fields:
  "order_pool (add_order ord s) =
     construct (snd (allocate (order_pool s))) (fst (allocate (order_pool s))) \<lparr>order = ord\<rparr>"
  "order_lookup (add_order ord s) =
     (order_lookup s)(order_id ord \<mapsto> fst (allocate (order_pool s)))"
  "side_of (add_order ord s) b =
     (if b = is_buy ord
      then add_to_side (cmp_of b) (side_of s b) (fst (allocate (order_pool s))) \<lparr>order = ord\<rparr>
      else side_of s b)"
  "total_orders (add_order ord s) = total_orders s + 1"
  "total_cancels (add_order ord s) = total_cancels s"
  "total_amends (add_order ord s) = total_amends s"
  by (auto simp: add_order_def split_beta Let_def side_of_def cmp_of_def)

lemma slots_add_order:
  "slots (order_pool (add_order ord s)) =
     (slots (order_pool s))(fst (allocate (order_pool s)) \<mapsto> \<lparr>order = ord\<rparr>)"
  by (simp add: add_order_fields construct_def slots_allocate)

lemma cancel_order_Some:
  assumes "order_lookup s oid = Some ptr"
    and "slots (order_pool s) ptr = Some node"
    and "remove_from_side (side_of s (is_buy (order node))) ptr node = Some m"
  shows "cancel_order oid s = Some (True, cancelled s oid ptr node m)"
  using assms by (auto simp: cancel_order_def cancelled_def side_of_def)

lemma cancelled_fields:
  "order_pool (cancelled s oid ptr node m) = deallocate (order_pool s) ptr"
  "order_lookup (cancelled s oid ptr node m) = (order_lookup s)(oid := None)"
  "side_of (cancelled s oid ptr node m) b = (if b = is_buy (order node) then m else side_of s b)"
  "total_orders (cancelled s oid ptr node m) = total_orders s"
  "total_cancels (cancelled s oid ptr node m) = total_cancels s + 1"
  "total_amends (cancelled s oid ptr node m) = total_amends s"
  by (auto simp: cancelled_def side_of_def)

lemma amend_order_in_place:
  assumes "order_lookup s oid = Some ptr"
    and "slots (order_pool s) ptr = Some node"
    and "\<not> \<bar>double_sub (Order.price (order node)) new_price\<bar> > double_1e_9"
  shows "amend_order oid new_price q now s = Some (True, requantified s ptr node q)"
  using assms
  by (auto simp: amend_order_def requantified_def side_of_def Let_def split: prod.splits)

lemma amend_order_reprice:
  assumes "order_lookup s oid = Some ptr"
    and "slots (order_pool s) ptr = Some node"
    and "\<bar>double_sub (Order.price (order node)) new_price\<bar> > double_1e_9"
    and "cancel_order oid s = Some (r, s1)"
  shows "amend_order oid new_price q now s =
     Some (True,
           (add_order ((order node)\<lparr>Order.price := new_price, quantity := q,
                                    timestamp_ns := now\<rparr>) s1)
             \<lparr>total_amends :=
                total_amends (add_order ((order node)\<lparr>Order.price := new_price, quantity := q,
                                    timestamp_ns := now\<rparr>) s1) + 1\<rparr>)"
  using assms by (simp add: amend_order_def Let_def)

subsection \<open>The invariant is kept\<close>

lemma book_invD:
  assumes "book_inv s"
  shows "pool_ok (order_pool s)"
    and "sorted_wrt (cmp_of b) (map fst (side_of s b))"
    and "side_find (side_of s b) p = Some l \<Longrightarrow> level_ok (slots (order_pool s)) b p l"
    and "slots (order_pool s) a = Some n \<Longrightarrow>
         \<exists>l. side_find (side_of s (is_buy (order n))) (Order.price (order n)) = Some l \<and>
             a \<in> set (orders l)"
    and "order_lookup s oid = Some a \<Longrightarrow>
         \<exists>n. slots (order_pool s) a = Some n \<and> order_id (order n) = oid"
  using assms unfolding book_inv_def by blast+

lemma slots_init: "slots MemoryPool_init = Map.empty"
  by (simp add: MemoryPool_init_def allocate_block_def)

lemma book_inv_init: "book_inv OrderBook_init"
  by (simp add: book_inv_def OrderBook_init_def pool_ok_init slots_init side_of_def
        side_find_def)

lemma level_ok_push:
  assumes fresh: "h ptr = None"
    and old: "\<And>l0. side_find m p = Some l0 \<Longrightarrow> level_ok h b p l0"
    and node: "is_buy (order node) = b" "Order.price (order node) = p"
  shows "level_ok (h(ptr \<mapsto> node)) b p (push_node (level_at m p) ptr node)"
proof (cases "side_find m p")
  case None
  then show ?thesis
    using node
    by (simp add: level_at_def push_node_def Level_init_def level_ok_def
          queue_quantity_def node_quantity_def)
next
  case (Some l0)
  then have ok: "level_ok h b p l0" by (rule old)
  with fresh have notin: "ptr \<notin> set (orders l0)"
    by (auto simp: level_ok_def)
  then have "queue_quantity (h(ptr \<mapsto> node)) (orders l0) = queue_quantity h (orders l0)"
    by (rule queue_quantity_upd_notin)
  with ok notin node Some show ?thesis
    by (auto simp: level_at_def push_node_def level_ok_def queue_quantity_snoc node_quantity_upd)
qed

lemma level_ok_fresh:
  assumes "level_ok h b p l" and "h ptr = None"
  shows "level_ok (h(ptr \<mapsto> node)) b p l"
proof -
  from assms have "ptr \<notin> set (orders l)"
    by (auto simp: level_ok_def)
  with assms(1) show ?thesis
    by (auto simp: level_ok_def queue_quantity_upd_notin)
qed

lemma orders_push_node: "orders (push_node l ptr node) = orders l @ [ptr]"
  by (simp add: push_node_def)

theorem book_inv_add_order:
  assumes inv: "book_inv s"
  shows "book_inv (add_order ord s)"
proof -
  let ?h = "slots (order_pool s)"
  let ?ptr = "fst (allocate (order_pool s))"
  let ?node = "\<lparr>order = ord\<rparr>"
  let ?s' = "add_order ord s"
  have fresh: "?h ?ptr = None"
    using book_invD(1) [OF inv] by (rule allocate_fresh)
  have h': "slots (order_pool ?s') = ?h(?ptr \<mapsto> ?node)"
    by (rule slots_add_order)
  have pool: "pool_ok (order_pool ?s')"
    using book_invD(1) [OF inv] by (simp add: add_order_fields pool_ok_allocate)
  have sorted: "sorted_wrt (cmp_of b) (map fst (side_of ?s' b))" for b
    using book_invD(2) [OF inv, of b] by (auto simp: add_order_fields sorted_add_to_side)
  have levels: "level_ok (slots (order_pool ?s')) b p l"
    if f: "side_find (side_of ?s' b) p = Some l" for b p l
  proof (cases "b = is_buy ord \<and> p = Order.price ord")
    case True
    with f have "l = push_node (level_at (side_of s b) p) ?ptr ?node"
      by (simp add: add_order_fields side_find_add_to_side)
    moreover have "level_ok (?h(?ptr \<mapsto> ?node)) b p (push_node (level_at (side_of s b) p) ?ptr ?node)"
      using fresh book_invD(3) [OF inv] True by (intro level_ok_push) auto
    ultimately show ?thesis by (simp add: h')
  next
    case False
    with f have "side_find (side_of s b) p = Some l"
      by (auto simp: add_order_fields side_find_add_to_side split: if_splits)
    then have "level_ok ?h b p l" by (rule book_invD(3) [OF inv])
    then show ?thesis unfolding h' using fresh by (rule level_ok_fresh)
  qed
  have cover: "\<exists>l. side_find (side_of ?s' (is_buy (order n))) (Order.price (order n)) = Some l \<and>
             a \<in> set (orders l)"
    if live: "slots (order_pool ?s') a = Some n" for a n
  proof (cases "a = ?ptr")
    case True
    with live have "n = ?node" by (simp add: h')
    with True show ?thesis
      by (simp add: add_order_fields side_find_add_to_side orders_push_node)
  next
    case False
    with live have "?h a = Some n" by (simp add: h')
    from book_invD(4) [OF inv this] obtain l where
      l: "side_find (side_of s (is_buy (order n))) (Order.price (order n)) = Some l"
         "a \<in> set (orders l)" by blast
    then show ?thesis
      by (auto simp: add_order_fields side_find_add_to_side orders_push_node level_at_def)
  qed
  have index: "\<exists>n. slots (order_pool ?s') a = Some n \<and> order_id (order n) = oid"
    if "order_lookup ?s' oid = Some a" for oid a
  proof (cases "oid = order_id ord")
    case True
    with that show ?thesis by (simp add: add_order_fields(2) h')
  next
    case False
    with that have "order_lookup s oid = Some a" by (simp add: add_order_fields(2))
    from book_invD(5) [OF inv this] obtain n where
      n: "?h a = Some n" "order_id (order n) = oid" by blast
    with fresh have "a \<noteq> ?ptr" by auto
    with n show ?thesis by (simp add: h')
  qed
  show ?thesis
    unfolding book_inv_def using pool sorted levels cover index by blast
qed

lemma book_inv_resting:
  assumes inv: "book_inv s" and idx: "order_lookup s oid = Some ptr"
  obtains node l where "slots (order_pool s) ptr = Some node"
    and "order_id (order node) = oid"
    and "side_find (side_of s (is_buy (order node))) (Order.price (order node)) = Some l"
    and "ptr \<in> set (orders l)"
    and "level_ok (slots (order_pool s)) (is_buy (order node)) (Order.price (order node)) l"
proof -
  from book_invD(5) [OF inv idx] obtain node where
    n: "slots (order_pool s) ptr = Some node" "order_id (order node) = oid" by blast
  from book_invD(4) [OF inv n(1)] obtain l where
    l: "side_find (side_of s (is_buy (order node))) (Order.price (order node)) = Some l"
       "ptr \<in> set (orders l)" by blast
  from book_invD(3) [OF inv l(1)] n l that show thesis by blast
qed

lemma level_ok_other:
  assumes "level_ok h b p l" and "h ptr = Some node"
    and "b \<noteq> is_buy (order node) \<or> p \<noteq> Order.price (order node)"
  shows "ptr \<notin> set (orders l)"
  using assms by (auto simp: level_ok_def)

lemma level_ok_remove:
  assumes ok: "level_ok h b p l" and mem: "ptr \<in> set (orders l)"
    and node: "h ptr = Some node" and rest: "remove1 ptr (orders l) \<noteq> []"
  shows "level_ok (h(ptr := None)) b p
           (l\<lparr>orders := remove1 ptr (orders l),
              total_quantity := total_quantity l - quantity (order node)\<rparr>)"
proof -
  from ok have d: "distinct (orders l)" by (simp add: level_ok_def)
  with mem have notin: "ptr \<notin> set (remove1 ptr (orders l))" by simp
  have q: "node_quantity h ptr = quantity (order node)"
    using node by (simp add: node_quantity_def)
  have "queue_quantity (h(ptr := None)) (remove1 ptr (orders l)) =
        queue_quantity h (remove1 ptr (orders l))"
    using notin by (rule queue_quantity_upd_notin)
  also have "\<dots> = queue_quantity h (orders l) - quantity (order node)"
    using mem by (simp add: queue_quantity_remove1 q)
  finally have sum: "queue_quantity (h(ptr := None)) (remove1 ptr (orders l)) =
        queue_quantity h (orders l) - quantity (order node)" .
  from ok d rest show ?thesis
    by (auto simp: level_ok_def sum)
qed

lemma level_ok_dead:
  assumes "level_ok h b p l" and "ptr \<notin> set (orders l)"
  shows "level_ok (h(ptr := v)) b p l"
  using assms by (auto simp: level_ok_def queue_quantity_upd_notin)

theorem book_inv_cancelled:
  assumes inv: "book_inv s"
    and idx: "order_lookup s oid = Some ptr"
    and node: "slots (order_pool s) ptr = Some node"
    and rm: "remove_from_side (side_of s (is_buy (order node))) ptr node = Some m"
  shows "book_inv (cancelled s oid ptr node m)"
proof -
  let ?h = "slots (order_pool s)"
  let ?s' = "cancelled s oid ptr node m"
  let ?b0 = "is_buy (order node)"
  let ?p0 = "Order.price (order node)"
  from book_invD(4) [OF inv node] obtain l0 where
    l0: "side_find (side_of s ?b0) ?p0 = Some l0" "ptr \<in> set (orders l0)" by blast
  have ok0: "level_ok ?h ?b0 ?p0 l0" by (rule book_invD(3) [OF inv l0(1)])
  have h': "slots (order_pool ?s') = ?h(ptr := None)"
    by (simp add: cancelled_fields deallocate_def)
  have pool: "pool_ok (order_pool ?s')"
    using book_invD(1) [OF inv] node by (simp add: cancelled_fields pool_ok_deallocate)
  have sorted: "sorted_wrt (cmp_of b) (map fst (side_of ?s' b))" for b
    using book_invD(2) [OF inv, of b] sorted_remove_from_side [OF rm, of "cmp_of b"]
    by (auto simp: cancelled_fields)
  have find': "side_find (side_of ?s' b) p =
      (if b = ?b0 \<and> p = ?p0
       then (if remove1 ptr (orders l0) = [] then None
             else Some (l0\<lparr>orders := remove1 ptr (orders l0),
                          total_quantity := total_quantity l0 - quantity (order node)\<rparr>))
       else side_find (side_of s b) p)" for b p
    using l0(1) by (auto simp: cancelled_fields side_find_remove_from_side [OF rm])
  have levels: "level_ok (slots (order_pool ?s')) b p l"
    if f: "side_find (side_of ?s' b) p = Some l" for b p l
  proof (cases "b = ?b0 \<and> p = ?p0")
    case True
    with f have rest: "remove1 ptr (orders l0) \<noteq> []"
      and l: "l = l0\<lparr>orders := remove1 ptr (orders l0),
                      total_quantity := total_quantity l0 - quantity (order node)\<rparr>"
      by (auto simp: find' split: if_splits)
    from level_ok_remove [OF ok0 l0(2) node rest] True l show ?thesis
      by (simp add: h')
  next
    case False
    with f have old: "side_find (side_of s b) p = Some l"
      by (auto simp: find' split: if_splits)
    then have ok: "level_ok ?h b p l" by (rule book_invD(3) [OF inv])
    from level_ok_other [OF ok node] False have "ptr \<notin> set (orders l)" by blast
    with ok show ?thesis unfolding h' by (rule level_ok_dead)
  qed
  have cover: "\<exists>l. side_find (side_of ?s' (is_buy (order n))) (Order.price (order n)) = Some l \<and>
             a \<in> set (orders l)"
    if live: "slots (order_pool ?s') a = Some n" for a n
  proof -
    from live have ne: "a \<noteq> ptr" and old: "?h a = Some n"
      by (auto simp: h' split: if_splits)
    from book_invD(4) [OF inv old] obtain l where
      l: "side_find (side_of s (is_buy (order n))) (Order.price (order n)) = Some l"
         "a \<in> set (orders l)" by blast
    show ?thesis
    proof (cases "is_buy (order n) = ?b0 \<and> Order.price (order n) = ?p0")
      case True
      with l l0 have "l = l0" by simp
      with l(2) ne have "a \<in> set (remove1 ptr (orders l0))" by simp
      moreover from this have "remove1 ptr (orders l0) \<noteq> []" by auto
      ultimately show ?thesis using True by (simp add: find')
    next
      case False
      with l show ?thesis by (auto simp: find')
    qed
  qed
  have index: "\<exists>n. slots (order_pool ?s') a = Some n \<and> order_id (order n) = oid'"
    if "order_lookup ?s' oid' = Some a" for oid' a
  proof -
    from that have ne: "oid' \<noteq> oid" and old: "order_lookup s oid' = Some a"
      by (auto simp: cancelled_fields split: if_splits)
    from book_invD(5) [OF inv old] obtain n where
      n: "?h a = Some n" "order_id (order n) = oid'" by blast
    from book_invD(5) [OF inv idx] node have "order_id (order node) = oid" by auto
    with n ne node have "a \<noteq> ptr" by auto
    with n show ?thesis by (simp add: h')
  qed
  show ?thesis
    unfolding book_inv_def using pool sorted levels cover index by blast
qed

lemma cancel_order_resting:
  assumes inv: "book_inv s" and idx: "order_lookup s oid = Some ptr"
  obtains node m where "slots (order_pool s) ptr = Some node"
    and "remove_from_side (side_of s (is_buy (order node))) ptr node = Some m"
    and "cancel_order oid s = Some (True, cancelled s oid ptr node m)"
proof -
  from book_inv_resting [OF inv idx] obtain node l where
    n: "slots (order_pool s) ptr = Some node"
    and l: "side_find (side_of s (is_buy (order node))) (Order.price (order node)) = Some l"
           "ptr \<in> set (orders l)" by blast
  from remove_from_side_Some [OF l] obtain m where
    m: "remove_from_side (side_of s (is_buy (order node))) ptr node = Some m" by blast
  from cancel_order_Some [OF idx n m] n m that show thesis by blast
qed

lemma cancel_order_unknown: "order_lookup s oid = None \<Longrightarrow> cancel_order oid s = Some (False, s)"
  by (simp add: cancel_order_def)

lemma amend_order_unknown:
  "order_lookup s oid = None \<Longrightarrow> amend_order oid p q now s = Some (False, s)"
  by (simp add: amend_order_def)

theorem book_inv_cancel_order:
  assumes inv: "book_inv s"
  shows "\<exists>r s'. cancel_order oid s = Some (r, s') \<and> book_inv s'"
proof (cases "order_lookup s oid")
  case None
  with inv show ?thesis by (auto simp: cancel_order_unknown)
next
  case (Some ptr)
  from cancel_order_resting [OF inv Some] obtain node m where
    c: "slots (order_pool s) ptr = Some node"
       "remove_from_side (side_of s (is_buy (order node))) ptr node = Some m"
       "cancel_order oid s = Some (True, cancelled s oid ptr node m)" by blast
  from book_inv_cancelled [OF inv Some c(1) c(2)] c(3) show ?thesis by blast
qed

lemma requantified_fields:
  assumes "side_find (side_of s (is_buy (order node))) (Order.price (order node)) = Some l0"
  shows "order_pool (requantified s ptr node q) =
           construct (order_pool s) ptr (node\<lparr>order := (order node)\<lparr>quantity := q\<rparr>\<rparr>)"
    and "order_lookup (requantified s ptr node q) = order_lookup s"
    and "side_of (requantified s ptr node q) b =
           (if b = is_buy (order node)
            then side_assign (Order.price (order node))
                   (l0\<lparr>total_quantity := total_quantity l0 - quantity (order node) + q\<rparr>)
                   (side_of s b)
            else side_of s b)"
    and "total_orders (requantified s ptr node q) = total_orders s"
    and "total_cancels (requantified s ptr node q) = total_cancels s"
    and "total_amends (requantified s ptr node q) = total_amends s + 1"
  using assms
  by (auto simp: requantified_def update_quantity_in_place_Some side_of_def)

lemma level_ok_requantify:
  assumes ok: "level_ok h b p l" and mem: "ptr \<in> set (orders l)" and node: "h ptr = Some node"
  shows "level_ok (h(ptr \<mapsto> node\<lparr>order := (order node)\<lparr>quantity := q\<rparr>\<rparr>)) b p
           (l\<lparr>total_quantity := total_quantity l - quantity (order node) + q\<rparr>)"
proof -
  from ok have d: "distinct (orders l)" by (simp add: level_ok_def)
  have "node_quantity h ptr = quantity (order node)"
    using node by (simp add: node_quantity_def)
  with queue_quantity_upd_in [OF mem d, of h "node\<lparr>order := (order node)\<lparr>quantity := q\<rparr>\<rparr>"]
  have sum: "queue_quantity (h(ptr \<mapsto> node\<lparr>order := (order node)\<lparr>quantity := q\<rparr>\<rparr>)) (orders l) =
        queue_quantity h (orders l) - quantity (order node) + q"
    by simp
  from ok node show ?thesis
    by (auto simp: level_ok_def sum)
qed

theorem book_inv_requantified:
  assumes inv: "book_inv s"
    and idx: "order_lookup s oid = Some ptr"
    and node: "slots (order_pool s) ptr = Some node"
  shows "book_inv (requantified s ptr node q)"
proof -
  let ?h = "slots (order_pool s)"
  let ?s' = "requantified s ptr node q"
  let ?b0 = "is_buy (order node)"
  let ?p0 = "Order.price (order node)"
  let ?node' = "node\<lparr>order := (order node)\<lparr>quantity := q\<rparr>\<rparr>"
  from book_invD(4) [OF inv node] obtain l0 where
    l0: "side_find (side_of s ?b0) ?p0 = Some l0" "ptr \<in> set (orders l0)" by blast
  let ?l0' = "l0\<lparr>total_quantity := total_quantity l0 - quantity (order node) + q\<rparr>"
  note fields = requantified_fields [OF l0(1)]
  have ok0: "level_ok ?h ?b0 ?p0 l0" by (rule book_invD(3) [OF inv l0(1)])
  have h': "slots (order_pool ?s') = ?h(ptr \<mapsto> ?node')"
    by (simp add: fields construct_def)
  have pool: "pool_ok (order_pool ?s')"
    using book_invD(1) [OF inv] node by (simp add: fields pool_ok_construct)
  have sorted: "sorted_wrt (cmp_of b) (map fst (side_of ?s' b))" for b
    using book_invD(2) [OF inv, of b] by (auto simp: fields keys_side_assign)
  have find': "side_find (side_of ?s' b) p =
      (if b = ?b0 \<and> p = ?p0 then Some ?l0' else side_find (side_of s b) p)" for b p
    using l0(1) by (auto simp: fields side_find_assign)
  have levels: "level_ok (slots (order_pool ?s')) b p l"
    if f: "side_find (side_of ?s' b) p = Some l" for b p l
  proof (cases "b = ?b0 \<and> p = ?p0")
    case True
    with f have "l = ?l0'" by (simp add: find')
    with level_ok_requantify [OF ok0 l0(2) node, of q] True show ?thesis
      by (simp add: h')
  next
    case False
    with f have old: "side_find (side_of s b) p = Some l"
      by (auto simp: find' split: if_splits)
    then have ok: "level_ok ?h b p l" by (rule book_invD(3) [OF inv])
    from level_ok_other [OF ok node] False have "ptr \<notin> set (orders l)" by blast
    with ok show ?thesis unfolding h' by (rule level_ok_dead)
  qed
  have cover: "\<exists>l. side_find (side_of ?s' (is_buy (order n))) (Order.price (order n)) = Some l \<and>
             a \<in> set (orders l)"
    if live: "slots (order_pool ?s') a = Some n" for a n
  proof (cases "a = ptr")
    case True
    with live have "n = ?node'" by (simp add: h')
    with True l0(2) show ?thesis by (simp add: find')
  next
    case False
    with live have old: "?h a = Some n" by (simp add: h')
    from book_invD(4) [OF inv old] obtain l where
      l: "side_find (side_of s (is_buy (order n))) (Order.price (order n)) = Some l"
         "a \<in> set (orders l)" by blast
    with l0 show ?thesis by (auto simp: find')
  qed
  have index: "\<exists>n. slots (order_pool ?s') a = Some n \<and> order_id (order n) = oid'"
    if "order_lookup ?s' oid' = Some a" for oid' a
  proof -
    from that have old: "order_lookup s oid' = Some a" by (simp add: fields)
    from book_invD(5) [OF inv old] obtain n where
      n: "?h a = Some n" "order_id (order n) = oid'" by blast
    with node show ?thesis unfolding h' by (cases "a = ptr") auto
  qed
  show ?thesis
    unfolding book_inv_def using pool sorted levels cover index by blast
qed

lemma book_inv_counters:
  "book_inv (s\<lparr>total_amends := x\<rparr>) = book_inv s"
  by (simp add: book_inv_def side_of_def)

theorem book_inv_amend_order:
  assumes inv: "book_inv s"
  shows "\<exists>r s'. amend_order oid new_price q now s = Some (r, s') \<and> book_inv s'"
proof (cases "order_lookup s oid")
  case None
  with inv show ?thesis by (auto simp: amend_order_unknown)
next
  case (Some ptr)
  from book_invD(5) [OF inv Some] obtain node where
    node: "slots (order_pool s) ptr = Some node" by blast
  show ?thesis
  proof (cases "\<bar>double_sub (Order.price (order node)) new_price\<bar> > double_1e_9")
    case True
    from book_inv_cancel_order [OF inv, of oid] obtain r s1 where
      c: "cancel_order oid s = Some (r, s1)" "book_inv s1" by blast
    from amend_order_reprice [OF Some node True c(1)] book_inv_add_order [OF c(2)]
    show ?thesis by (auto simp: book_inv_counters)
  next
    case False
    from amend_order_in_place [OF Some node False] book_inv_requantified [OF inv Some node]
    show ?thesis by auto
  qed
qed

subsection \<open>Reachable books\<close>

theorem reachable_book_inv: "reachable s \<Longrightarrow> book_inv s"
proof (induction rule: reachable.induct)
  case init
  show ?case by (rule book_inv_init)
next
  case (add s ord)
  then show ?case by (simp add: book_inv_add_order)
next
  case (cancel s oid r s')
  with book_inv_cancel_order [of s oid] show ?case by auto
next
  case (amend s oid p q now r s')
  with book_inv_amend_order [of s oid p q now] show ?case by auto
qed

theorem reachable_no_fault:
  assumes "reachable s"
  shows "cancel_order oid s \<noteq> None" and "amend_order oid p q now s \<noteq> None"
  using book_inv_cancel_order [OF reachable_book_inv [OF assms], of oid]
    book_inv_amend_order [OF reachable_book_inv [OF assms], of oid p q now]
  by auto

text \<open>The definitions that the examples unfold.\<close>

lemmas book_eval =
  add_order_def cancel_order_def amend_order_def OrderBook_init_def MemoryPool_init_def
  allocate_def allocate_block_def construct_def deallocate_def add_to_side_def
  remove_from_side_def update_quantity_in_place_def side_find_def push_node_def Level_init_def
  side_assign_def side_erase_def BlockSize_def Let_def
  order_1001_def order_1002_def order_1003_def order_2001_def order_2003_def
  double_sub_def double_round_def double_ulp_def round_half_even_def
  ulp_big.simps ulp_small.simps double_1e_9_def

text \<open>The tolerance is the double nearest to \<open>1 / 10 ^ 9\<close>.\<close>

lemma double_1e_9_literal: "double_round (1 / 10 ^ 9) = double_1e_9"
  by (simp add: double_round_def double_ulp_def round_half_even_def ulp_small.simps
        double_1e_9_def Let_def)

subsection \<open>Queues and levels after each operation\<close>

lemma queue_at_add_order:
  "queue_at (side_of (add_order ord s) b) p =
     (if b = is_buy ord \<and> p = Order.price ord
      then queue_at (side_of s b) p @ [fst (allocate (order_pool s))]
      else queue_at (side_of s b) p)"
  by (auto simp: queue_at_def add_order_fields side_find_add_to_side orders_push_node
        level_at_def Level_init_def split: option.splits)


lemma level_at_add_order:
  "level_at (side_of (add_order ord s) b) p =
     (if b = is_buy ord \<and> p = Order.price ord
      then push_node (level_at (side_of s b) p) (fst (allocate (order_pool s))) \<lparr>order = ord\<rparr>
      else level_at (side_of s b) p)"
  by (auto simp: level_at_def add_order_fields side_find_add_to_side)

lemma side_find_add_order_other:
  "\<not> (b = is_buy ord \<and> p = Order.price ord) \<Longrightarrow>
   side_find (side_of (add_order ord s) b) p = side_find (side_of s b) p"
  by (auto simp: add_order_fields side_find_add_to_side)

lemma side_find_cancelled:
  assumes "remove_from_side (side_of s (is_buy (order node))) ptr node = Some m"
  shows "side_find (side_of (cancelled s oid ptr node m) b) p =
     (if b = is_buy (order node) \<and> p = Order.price (order node)
      then (if remove1 ptr (queue_at (side_of s b) p) = [] then None
            else Some ((level_at (side_of s b) p)
                        \<lparr>orders := remove1 ptr (queue_at (side_of s b) p),
                         total_quantity := total_quantity (level_at (side_of s b) p)
                                             - quantity (order node)\<rparr>))
      else side_find (side_of s b) p)"
  by (auto simp: cancelled_fields side_find_remove_from_side [OF assms] queue_at_def
        level_at_def split: option.splits)

lemma queue_at_cancelled:
  assumes "remove_from_side (side_of s (is_buy (order node))) ptr node = Some m"
  shows "queue_at (side_of (cancelled s oid ptr node m) b) p =
     (if b = is_buy (order node) \<and> p = Order.price (order node)
      then remove1 ptr (queue_at (side_of s b) p)
      else queue_at (side_of s b) p)"
  unfolding queue_at_def [of "side_of (cancelled s oid ptr node m) b"]
    side_find_cancelled [OF assms]
  by (auto simp: queue_at_def)

lemma allocate_after_deallocate:
  "fst (allocate (deallocate p ptr)) = ptr"
  by (simp add: allocate_def deallocate_def)

lemma slots_cancelled:
  "slots (order_pool (cancelled s oid ptr node m)) = (slots (order_pool s))(ptr := None)"
  by (simp add: cancelled_fields deallocate_def)

text \<open>The price-changing path of \<open>amend_order\<close>.\<close>

lemma amend_order_repriced:
  assumes inv: "book_inv s"
    and idx: "order_lookup s oid = Some ptr"
    and node: "slots (order_pool s) ptr = Some node"
    and far: "\<bar>double_sub (Order.price (order node)) new_price\<bar> > double_1e_9"
  obtains m where
    "remove_from_side (side_of s (is_buy (order node))) ptr node = Some m"
    and "amend_order oid new_price q now s =
           Some (True, repriced s oid ptr node m new_price q now)"
    and "book_inv (cancelled s oid ptr node m)"
proof -
  from cancel_order_resting [OF inv idx] node obtain m where
    m: "remove_from_side (side_of s (is_buy (order node))) ptr node = Some m"
    and c: "cancel_order oid s = Some (True, cancelled s oid ptr node m)" by auto
  have a: "amend_order oid new_price q now s =
      Some (True, repriced s oid ptr node m new_price q now)"
    unfolding repriced_def Let_def by (rule amend_order_reprice [OF idx node far c])
  have "book_inv (cancelled s oid ptr node m)"
    by (rule book_inv_cancelled [OF inv idx node m])
  with m a that show thesis by blast
qed

lemma side_of_counters:
  "side_of (s\<lparr>total_amends := x\<rparr>) b = side_of s b"
  by (simp add: side_of_def)

lemma repriced_fields:
  "order_pool (repriced s oid ptr node m new_price q now) =
     construct (snd (allocate (deallocate (order_pool s) ptr))) ptr
       \<lparr>order = (order node)\<lparr>Order.price := new_price, quantity := q, timestamp_ns := now\<rparr>\<rparr>"
  "order_lookup (repriced s (order_id (order node)) ptr node m new_price q now) =
     (order_lookup s)(order_id (order node) \<mapsto> ptr)"
  "side_of (repriced s oid ptr node m new_price q now) b =
     (if b = is_buy (order node)
      then add_to_side (cmp_of b) m ptr
             \<lparr>order = (order node)\<lparr>Order.price := new_price, quantity := q,
                                     timestamp_ns := now\<rparr>\<rparr>
      else side_of s b)"
  "total_orders (repriced s oid ptr node m new_price q now) = total_orders s + 1"
  "total_cancels (repriced s oid ptr node m new_price q now) = total_cancels s + 1"
  "total_amends (repriced s oid ptr node m new_price q now) = total_amends s + 1"
  by (simp_all add: repriced_def Let_def side_of_counters add_order_fields cancelled_fields
        allocate_after_deallocate)


lemma queue_at_requantified:
  assumes "side_find (side_of s (is_buy (order node))) (Order.price (order node)) = Some l0"
  shows "queue_at (side_of (requantified s ptr node q) b) p = queue_at (side_of s b) p"
  using assms
  by (auto simp: queue_at_def requantified_fields [OF assms] side_find_assign)

lemma side_find_requantified:
  assumes "side_find (side_of s (is_buy (order node))) (Order.price (order node)) = Some l0"
  shows "side_find (side_of (requantified s ptr node q) b) p =
     (if b = is_buy (order node) \<and> p = Order.price (order node)
      then Some (l0\<lparr>total_quantity := total_quantity l0 - quantity (order node) + q\<rparr>)
      else side_find (side_of s b) p)"
  using assms by (auto simp: requantified_fields [OF assms] side_find_assign)


lemma side_find_repriced:
  assumes rm: "remove_from_side (side_of s (is_buy (order node))) ptr node = Some m"
    and ne: "Order.price (order node) \<noteq> new_price"
  shows "side_find (side_of (repriced s oid ptr node m new_price q now) b) p =
     (if b = is_buy (order node) \<and> p = new_price
      then Some (push_node (level_at (side_of s b) new_price) ptr
                   \<lparr>order = (order node)\<lparr>Order.price := new_price, quantity := q,
                                           timestamp_ns := now\<rparr>\<rparr>)
      else side_find (side_of (cancelled s oid ptr node m) b) p)"
proof -
  have "level_at m new_price = level_at (side_of s (is_buy (order node))) new_price"
    using ne by (simp add: level_at_def side_find_remove_from_side [OF rm])
  then show ?thesis
    by (simp add: repriced_fields side_find_add_to_side cancelled_fields)
qed

lemma tolerance_distinct: "\<bar>double_sub a b\<bar> > double_1e_9 \<Longrightarrow> a \<noteq> b"
  by (auto simp: double_sub_def double_round_def double_1e_9_def)


subsection \<open>Adding a record and removing it again\<close>

lemma side_erase_emplace:
  "k \<notin> fst ` set m \<Longrightarrow> side_erase k (side_emplace cmp k v m) = m"
proof (induction m)
  case Nil
  then show ?case by (simp add: side_erase_def)
next
  case (Cons e m)
  then have "side_erase k m = m"
    by (auto simp: side_erase_def filter_id_conv)
  with Cons show ?case
    by (auto simp: side_erase_def)
qed

lemma side_assign_same:
  "distinct (map fst m) \<Longrightarrow> side_find m k = Some l \<Longrightarrow> side_assign k l m = m"
proof (induction m)
  case Nil
  then show ?case by (simp add: side_assign_def)
next
  case (Cons e m)
  show ?case
  proof (cases "fst e = k")
    case True
    with Cons.prems have "e = (k, l)" and "k \<notin> fst ` set m"
      by (auto simp: side_find_def)
    then have "side_assign k l m = m"
      by (force simp: side_assign_def intro!: map_idI)
    with \<open>e = (k, l)\<close> show ?thesis by (simp add: side_assign_def)
  next
    case False
    with Cons show ?thesis by (simp add: side_assign_def side_find_def)
  qed
qed

lemma side_assign_twice: "side_assign k v (side_assign k v' m) = side_assign k v m"
  by (induction m) (auto simp: side_assign_def)

lemma remove_add_to_side:
  assumes keys: "distinct (map fst m)"
    and old: "\<And>l. side_find m (Order.price (order node)) = Some l \<Longrightarrow>
                PriceLevel.price l = Order.price (order node) \<and> orders l \<noteq> [] \<and>
                ptr \<notin> set (orders l)"
  shows "remove_from_side (add_to_side cmp m ptr node) ptr node = Some m"
proof (cases "side_find m (Order.price (order node))")
  case None
  then have "Order.price (order node) \<notin> fst ` set m"
    by (simp add: side_find_None_iff)
  with None show ?thesis
    by (simp add: remove_from_side_def add_to_side_def Let_def side_find_emplace
          push_node_def Level_init_def side_erase_emplace)
next
  case (Some l)
  from old [OF Some] have l: "PriceLevel.price l = Order.price (order node)"
    "orders l \<noteq> []" "ptr \<notin> set (orders l)" by auto
  have restored: "(push_node l ptr node)
      \<lparr>orders := remove1 ptr (orders (push_node l ptr node)),
       total_quantity := total_quantity (push_node l ptr node) - quantity (order node)\<rparr> = l"
    using l by (simp add: push_node_def remove1_append)
  have found: "side_find (side_assign (Order.price (order node)) (push_node l ptr node) m)
      (Order.price (order node)) = Some (push_node l ptr node)"
    using Some by (simp add: side_find_assign)
  have "remove_from_side (side_assign (Order.price (order node)) (push_node l ptr node) m)
          ptr node =
        Some (side_assign (Order.price (order node)) l
               (side_assign (Order.price (order node)) (push_node l ptr node) m))"
    unfolding remove_from_side_def Let_def found using l restored
    by (simp add: orders_push_node remove1_append)
  with Some keys show ?thesis
    by (simp add: add_to_side_def Let_def side_assign_twice side_assign_same)
qed


subsection \<open>Snapshots and best prices\<close>

lemma price_snapshot_side:
  "map PriceLevel.price (snapshot_side depth count m) = take (depth - count) (map fst m)"
proof (induction m arbitrary: count)
  case Nil
  then show ?case by simp
next
  case (Cons e m)
  show ?case
  proof (cases "count \<ge> depth")
    case True
    then show ?thesis by simp
  next
    case False
    then have "depth - count = Suc (depth - (count + 1))" by simp
    with False Cons [of "count + 1"] show ?thesis by simp
  qed
qed

lemma sorted_wrt_take: "sorted_wrt P xs \<Longrightarrow> sorted_wrt P (take n xs)"
  by (metis append_take_drop_id sorted_wrt_append)


lemma Max_sorted_desc:
  "sorted_wrt (>) (x # xs) \<Longrightarrow> Max (set (x # xs)) = (x::real)"
  by (intro Max_eqI) auto

lemma Min_sorted_asc:
  "sorted_wrt (<) (x # xs) \<Longrightarrow> Min (set (x # xs)) = (x::real)"
  by (intro Min_eqI) auto

subsection \<open>Resting records\<close>

lemma set_resting_ptrs:
  assumes "pool_ok (order_pool s)"
  shows "set (resting_ptrs s b) =
         {a. \<exists>n. slots (order_pool s) a = Some n \<and> is_buy (order n) = b}"
proof -
  from assms have "dom (slots (order_pool s)) \<subseteq> {a. a < pool_bound (order_pool s)}"
    by (auto simp: pool_ok_def)
  then have "a < pool_bound (order_pool s)" if "slots (order_pool s) a = Some n" for a n
    using that by auto
  then show ?thesis
    by (auto simp: resting_ptrs_def split: option.splits)
qed

lemma distinct_resting_ptrs: "distinct (resting_ptrs s b)"
  by (simp add: resting_ptrs_def)

lemma side_empty_iff:
  assumes inv: "book_inv s"
  shows "side_of s b = [] \<longleftrightarrow> resting_ptrs s b = []"
proof
  assume empty: "side_of s b = []"
  show "resting_ptrs s b = []"
  proof (rule ccontr)
    assume "resting_ptrs s b \<noteq> []"
    then obtain a where "a \<in> set (resting_ptrs s b)" by (cases "resting_ptrs s b") auto
    then obtain n where n: "slots (order_pool s) a = Some n" "is_buy (order n) = b"
      by (auto simp: set_resting_ptrs [OF book_invD(1) [OF inv]])
    from book_invD(4) [OF inv n(1)] n(2) empty show False
      by (auto simp: side_find_def)
  qed
next
  assume none: "resting_ptrs s b = []"
  show "side_of s b = []"
  proof (rule ccontr)
    assume "side_of s b \<noteq> []"
    then obtain e m where "side_of s b = e # m" by (cases "side_of s b") auto
    then have f: "side_find (side_of s b) (fst e) = Some (snd e)"
      by (simp add: side_find_def)
    from book_invD(3) [OF inv f] obtain a n where
      "slots (order_pool s) a = Some n" "is_buy (order n) = b"
      by (cases "orders (snd e)") (auto simp: level_ok_def)
    then have "a \<in> set (resting_ptrs s b)"
      by (auto simp: set_resting_ptrs [OF book_invD(1) [OF inv]])
    with none show False by simp
  qed
qed


subsection \<open>The aggregates of a side and its resting records\<close>

lemma level_at_entry:
  "distinct (map fst m) \<Longrightarrow> e \<in> set m \<Longrightarrow> level_at m (fst e) = snd e"
  by (cases e) (simp add: level_at_def side_find_def)

text \<open>A sum over the resting records of a side is the sum, over the levels of the side, of
  the sums over their queues.\<close>

lemma resting_sum_levels:
  fixes f :: "node_ptr \<Rightarrow> 'a::comm_monoid_add"
  assumes inv: "book_inv s"
  shows "sum_list (map f (resting_ptrs s b)) =
         sum_list (map (\<lambda>e. sum_list (map f (orders (snd e)))) (side_of s b))"
proof -
  let ?h = "slots (order_pool s)"
  let ?m = "side_of s b"
  let ?S = "set (resting_ptrs s b)"
  let ?g = "\<lambda>a. case ?h a of None \<Rightarrow> 0 | Some n \<Rightarrow> Order.price (order n)"
  let ?F = "\<lambda>p. sum_list (map f (orders (level_at ?m p)))"
  have S: "?S = {a. \<exists>n. ?h a = Some n \<and> is_buy (order n) = b}"
    by (rule set_resting_ptrs [OF book_invD(1) [OF inv]])
  have keys: "distinct (map fst ?m)"
    by (rule sorted_keys_distinct [OF book_invD(2) [OF inv]])
  have sub: "?g ` ?S \<subseteq> set (map fst ?m)"
  proof
    fix p assume "p \<in> ?g ` ?S"
    then obtain a n where n: "?h a = Some n" "is_buy (order n) = b"
      and p: "p = Order.price (order n)"
      by (auto simp: S)
    from book_invD(4) [OF inv n(1)] n(2) p obtain l where
      "side_find ?m p = Some l" by auto
    then have "(p, l) \<in> set ?m" by (rule side_find_SomeD)
    then show "p \<in> set (map fst ?m)" by force
  qed
  have level: "sum f {a. a \<in> ?S \<and> ?g a = p} = ?F p" if "p \<in> set (map fst ?m)" for p
  proof -
    from that obtain l where l: "side_find ?m p = Some l"
      by (cases "side_find ?m p") (auto simp: side_find_None_iff)
    have ok: "level_ok ?h b p l" by (rule book_invD(3) [OF inv l])
    have "{a. a \<in> ?S \<and> ?g a = p} = set (orders l)"
    proof (intro set_eqI iffI)
      fix a assume "a \<in> {a. a \<in> ?S \<and> ?g a = p}"
      then obtain n where n: "?h a = Some n" "is_buy (order n) = b"
        "Order.price (order n) = p"
        by (auto simp: S)
      from book_invD(4) [OF inv n(1)] n(2,3) l show "a \<in> set (orders l)" by auto
    next
      fix a assume "a \<in> set (orders l)"
      with ok show "a \<in> {a. a \<in> ?S \<and> ?g a = p}"
        by (auto simp: S level_ok_def)
    qed
    moreover from ok have "distinct (orders l)" by (simp add: level_ok_def)
    then have "sum f (set (orders l)) = sum_list (map f (orders l))"
      by (simp add: sum_list_distinct_conv_sum_set)
    ultimately show ?thesis using l by (simp add: level_at_def)
  qed
  have "sum_list (map f (resting_ptrs s b)) = sum f ?S"
    by (rule sum_list_distinct_conv_sum_set [OF distinct_resting_ptrs])
  also have "\<dots> = (\<Sum>p\<in>set (map fst ?m). sum f {a. a \<in> ?S \<and> ?g a = p})"
    by (rule sum.group [symmetric]) (use sub in simp_all)
  also have "\<dots> = (\<Sum>p\<in>set (map fst ?m). ?F p)"
    by (rule sum.cong) (simp_all add: level del: set_map)
  also have "\<dots> = sum_list (map ?F (map fst ?m))"
    using keys by (rule sum_list_distinct_conv_sum_set [symmetric])
  also have "\<dots> = sum_list (map (\<lambda>e. ?F (fst e)) ?m)"
    by (simp add: comp_def)
  also have "\<dots> = sum_list (map (\<lambda>e. sum_list (map f (orders (snd e)))) ?m)"
    by (rule arg_cong [where f = sum_list]) (simp add: level_at_entry [OF keys])
  finally show ?thesis .
qed

lemma book_inv_entry:
  assumes inv: "book_inv s" and mem: "e \<in> set (side_of s b)"
  shows "level_ok (slots (order_pool s)) b (fst e) (snd e)"
proof -
  have "distinct (map fst (side_of s b))"
    by (rule sorted_keys_distinct [OF book_invD(2) [OF inv]])
  moreover from mem have "(fst e, snd e) \<in> set (side_of s b)" by simp
  ultimately have "side_find (side_of s b) (fst e) = Some (snd e)"
    by (rule side_find_is_Some)
  then show ?thesis by (rule book_invD(3) [OF inv])
qed


lemma side_total_resting:
  assumes inv: "book_inv s"
  shows "side_total (side_of s b) = resting_quantity s b"
proof -
  have "sum_list (map (\<lambda>e. total_quantity (snd e)) (side_of s b)) =
      sum_list (map (\<lambda>e. sum_list (map (node_quantity (slots (order_pool s)))
                                   (orders (snd e)))) (side_of s b))"
  proof (rule arg_cong [where f = sum_list], rule map_cong [OF refl])
    fix e assume "e \<in> set (side_of s b)"
    from book_inv_entry [OF inv this]
    show "total_quantity (snd e) =
        sum_list (map (node_quantity (slots (order_pool s))) (orders (snd e)))"
      by (simp add: level_ok_def queue_quantity_def)
  qed
  then show ?thesis
    unfolding side_total_def resting_quantity_def resting_sum_levels [OF inv] .
qed

lemma unat_sum_list:
  "unat (sum_list ws :: u64) = sum_list (map unat ws) mod 2 ^ 64"
proof (induction ws)
  case Nil
  then show ?case by simp
next
  case (Cons w ws)
  have "unat (w + sum_list ws) = (unat w + unat (sum_list ws)) mod 2 ^ 64"
    by (simp add: unat_word_ariths)
  also have "\<dots> = (unat w + sum_list (map unat ws)) mod 2 ^ 64"
    unfolding Cons.IH by (rule mod_add_right_eq)
  finally show ?case by simp
qed

lemma unat_queue_quantity:
  "unat (queue_quantity h q) = queue_units h q mod 2 ^ 64"
  by (simp add: queue_quantity_def queue_units_def unat_sum_list comp_def)

lemma unat_resting_quantity:
  "unat (resting_quantity s b) = resting_units s b mod 2 ^ 64"
  unfolding resting_quantity_def resting_units_def
  by (rule unat_queue_quantity [unfolded queue_quantity_def])

text \<open>While the quantities of the resting records of a side sum to less than \<open>2 ^ 64\<close>, no
  aggregate of the side has wrapped, and the aggregates sum to that number.\<close>

lemma resting_units_levels:
  assumes inv: "book_inv s"
  shows "resting_units s b =
         sum_list (map (\<lambda>e. queue_units (slots (order_pool s)) (orders (snd e))) (side_of s b))"
  unfolding resting_units_def queue_units_def by (rule resting_sum_levels [OF inv])

lemma queue_units_le_resting:
  assumes inv: "book_inv s" and mem: "e \<in> set (side_of s b)"
  shows "queue_units (slots (order_pool s)) (orders (snd e)) \<le> resting_units s b"
  unfolding resting_units_levels [OF inv]
  using mem by (intro member_le_sum_list) auto

lemma side_units_resting:
  assumes inv: "book_inv s" and small: "resting_units s b < 2 ^ 64"
  shows "side_units (side_of s b) = resting_units s b"
proof -
  have "sum_list (map (\<lambda>e. unat (total_quantity (snd e))) (side_of s b)) =
      sum_list (map (\<lambda>e. queue_units (slots (order_pool s)) (orders (snd e))) (side_of s b))"
  proof (rule arg_cong [where f = sum_list], rule map_cong [OF refl])
    fix e assume mem: "e \<in> set (side_of s b)"
    from book_inv_entry [OF inv mem]
    have "unat (total_quantity (snd e)) =
        queue_units (slots (order_pool s)) (orders (snd e)) mod 2 ^ 64"
      by (simp add: level_ok_def unat_queue_quantity)
    moreover from queue_units_le_resting [OF inv mem] small
    have "queue_units (slots (order_pool s)) (orders (snd e)) < 2 ^ 64" by simp
    ultimately show "unat (total_quantity (snd e)) =
        queue_units (slots (order_pool s)) (orders (snd e))" by simp
  qed
  then show ?thesis
    unfolding side_units_def resting_units_levels [OF inv] .
qed

subsection \<open>How one operation changes a queue\<close>

lemma queue_live:
  assumes inv: "book_inv s" and mem: "a \<in> set (queue_at (side_of s b) p)"
  shows "\<exists>n. slots (order_pool s) a = Some n \<and> is_buy (order n) = b \<and>
             Order.price (order n) = p"
proof (cases "side_find (side_of s b) p")
  case None
  with mem show ?thesis by (simp add: queue_at_def)
next
  case (Some l)
  from book_invD(3) [OF inv Some] mem Some show ?thesis
    by (auto simp: level_ok_def queue_at_def)
qed

lemma queue_at_repriced:
  assumes rm: "remove_from_side (side_of s (is_buy (order node))) ptr node = Some m"
    and ne: "Order.price (order node) \<noteq> new_price"
  shows "queue_at (side_of (repriced s oid ptr node m new_price q now) b) p =
     (if b = is_buy (order node) \<and> p = new_price then queue_at (side_of s b) p @ [ptr]
      else if b = is_buy (order node) \<and> p = Order.price (order node)
           then remove1 ptr (queue_at (side_of s b) p)
           else queue_at (side_of s b) p)"
proof (cases "b = is_buy (order node) \<and> p = new_price")
  case True
  have dst: "orders (push_node (level_at (side_of s b) new_price) ptr n') =
      queue_at (side_of s b) new_price @ [ptr]" for n'
    by (simp add: orders_push_node level_at_def queue_at_def Level_init_def
          split: option.splits)
  from True have "side_find (side_of (repriced s oid ptr node m new_price q now) b) p =
      Some (push_node (level_at (side_of s b) new_price) ptr
              \<lparr>order = (order node)\<lparr>Order.price := new_price, quantity := q,
                                      timestamp_ns := now\<rparr>\<rparr>)"
    by (simp add: side_find_repriced [OF rm ne])
  then have "queue_at (side_of (repriced s oid ptr node m new_price q now) b) p =
      queue_at (side_of s b) new_price @ [ptr]"
    unfolding queue_at_def [of "side_of (repriced s oid ptr node m new_price q now) b"]
    by (simp add: dst)
  with True show ?thesis by simp
next
  case False
  then have "side_find (side_of (repriced s oid ptr node m new_price q now) b) p =
      side_find (side_of (cancelled s oid ptr node m) b) p"
    by (auto simp: side_find_repriced [OF rm ne])
  then have "queue_at (side_of (repriced s oid ptr node m new_price q now) b) p =
      queue_at (side_of (cancelled s oid ptr node m) b) p"
    by (simp add: queue_at_def)
  with False ne show ?thesis
    by (auto simp: queue_at_cancelled [OF rm])
qed

text \<open>Every operation leaves a queue as it is, removes one record from it, or appends one
  record that was not in it.\<close>

lemma queue_at_step:
  assumes inv: "book_inv s" and step: "apply_op x s = Some s'"
  shows "queue_at (side_of s' b) p = queue_at (side_of s b) p \<or>
     (\<exists>a. a \<in> set (queue_at (side_of s b) p) \<and>
          queue_at (side_of s' b) p = remove1 a (queue_at (side_of s b) p)) \<or>
     (\<exists>a. a \<notin> set (queue_at (side_of s b) p) \<and>
          queue_at (side_of s' b) p = queue_at (side_of s b) p @ [a])"
proof (cases x)
  case (Add ord)
  with step have s': "s' = add_order ord s" by simp
  have "slots (order_pool s) (fst (allocate (order_pool s))) = None"
    by (rule allocate_fresh [OF book_invD(1) [OF inv]])
  with queue_live [OF inv, of "fst (allocate (order_pool s))" b p]
  have "fst (allocate (order_pool s)) \<notin> set (queue_at (side_of s b) p)" by auto
  then show ?thesis
    unfolding s' queue_at_add_order by auto
next
  case (Cancel oid)
  show ?thesis
  proof (cases "order_lookup s oid")
    case None
    with step Cancel have "s' = s" by (simp add: cancel_order_unknown)
    then show ?thesis by simp
  next
    case (Some ptr)
    from cancel_order_resting [OF inv Some] obtain node m where
      rm: "remove_from_side (side_of s (is_buy (order node))) ptr node = Some m"
      and c: "cancel_order oid s = Some (True, cancelled s oid ptr node m)" by blast
    from step Cancel c have s': "s' = cancelled s oid ptr node m" by simp
    show ?thesis
      unfolding s' queue_at_cancelled [OF rm]
      by (cases "ptr \<in> set (queue_at (side_of s b) p)") (auto simp: remove1_idem)
  qed
next
  case (Amend oid new_price q now)
  show ?thesis
  proof (cases "order_lookup s oid")
    case None
    with step Amend have "s' = s" by (simp add: amend_order_unknown)
    then show ?thesis by simp
  next
    case (Some ptr)
    from book_inv_resting [OF inv Some] obtain node l0 where
      node: "slots (order_pool s) ptr = Some node"
      and l0: "side_find (side_of s (is_buy (order node))) (Order.price (order node)) = Some l0"
      by blast
    show ?thesis
    proof (cases "\<bar>double_sub (Order.price (order node)) new_price\<bar> > double_1e_9")
      case True
      from amend_order_repriced [OF inv Some node True, of q now] obtain m where
        rm: "remove_from_side (side_of s (is_buy (order node))) ptr node = Some m"
        and a: "amend_order oid new_price q now s =
                  Some (True, repriced s oid ptr node m new_price q now)"
        by blast
      from step Amend a have s': "s' = repriced s oid ptr node m new_price q now" by simp
      have ne: "Order.price (order node) \<noteq> new_price"
        by (rule tolerance_distinct [OF True])
      have "ptr \<notin> set (queue_at (side_of s (is_buy (order node))) new_price)"
        using queue_live [OF inv, of ptr "is_buy (order node)" new_price] node ne by auto
      then show ?thesis
        unfolding s' queue_at_repriced [OF rm ne]
        by (cases "ptr \<in> set (queue_at (side_of s b) p)") (auto simp: remove1_idem)
    next
      case False
      from step Amend amend_order_in_place [OF Some node False, of q now]
      have s': "s' = requantified s ptr node q" by simp
      show ?thesis
        unfolding s' queue_at_requantified [OF l0] by simp
    qed
  qed
qed

lemma book_inv_apply_op:
  assumes "book_inv s"
  shows "\<exists>s'. apply_op x s = Some s' \<and> book_inv s'"
proof (cases x)
  case (Add ord)
  with book_inv_add_order [OF assms] show ?thesis by simp
next
  case (Cancel oid)
  with book_inv_cancel_order [OF assms, of oid] show ?thesis by auto
next
  case (Amend oid p q now)
  with book_inv_amend_order [OF assms, of oid p q now] show ?thesis by auto
qed

lemma reachable_apply_op:
  assumes "reachable s" and "apply_op x s = Some s'"
  shows "reachable s'"
proof (cases x)
  case (Add ord)
  with assms show ?thesis by (auto intro: reachable.add)
next
  case (Cancel oid)
  with assms show ?thesis by (auto intro: reachable.cancel)
next
  case (Amend oid p q now)
  with assms show ?thesis by (auto intro: reachable.amend)
qed

subsection \<open>Arrival stamps\<close>

lemma entered_iff:
  assumes inv': "book_inv s'" and mem: "a \<in> set (queue_at (side_of s' b) p)"
  shows "entered s s' a \<longleftrightarrow> a \<notin> set (queue_at (side_of s b) p)"
proof
  assume "entered s s' a"
  then obtain b1 e where e: "e \<in> set (side_of s' b1)" "a \<in> set (orders (snd e))"
    and out: "a \<notin> set (queue_at (side_of s b1) (fst e))"
    by (auto simp: entered_def)
  from book_inv_entry [OF inv' e(1)] e(2) obtain n where
    "slots (order_pool s') a = Some n" "is_buy (order n) = b1" "Order.price (order n) = fst e"
    by (auto simp: level_ok_def)
  with queue_live [OF inv' mem] have "b1 = b" "fst e = p" by auto
  with out show "a \<notin> set (queue_at (side_of s b) p)" by simp
next
  assume out: "a \<notin> set (queue_at (side_of s b) p)"
  from mem obtain l where l: "side_find (side_of s' b) p = Some l" "a \<in> set (orders l)"
    by (cases "side_find (side_of s' b) p") (auto simp: queue_at_def)
  from side_find_SomeD [OF l(1)] l(2) out show "entered s s' a"
    unfolding entered_def by (cases b) force+
qed

lemma sorted_wrt_remove1: "sorted_wrt P xs \<Longrightarrow> sorted_wrt P (remove1 a xs)"
  by (induction xs) (auto dest: notin_set_remove1)

lemma stamps_ok_step:
  assumes inv: "book_inv s" and ok: "stamps_ok k s t" and step: "apply_op x s = Some s'"
  shows "stamps_ok (k + 1) s' (\<lambda>a. if entered s s' a then k else t a)"
  unfolding stamps_ok_def
proof (intro allI conjI ballI)
  let ?t' = "\<lambda>a. if entered s s' a then k else t a"
  from book_inv_apply_op [OF inv, of x] step have inv': "book_inv s'" by auto
  fix b p
  let ?q = "queue_at (side_of s b) p"
  let ?q' = "queue_at (side_of s' b) p"
  from ok have sorted: "sorted_wrt (<) (map t ?q)" and below: "\<forall>a\<in>set ?q. t a < k"
    by (auto simp: stamps_ok_def)
  have stamp: "?t' a = (if a \<in> set ?q then t a else k)" if "a \<in> set ?q'" for a
    using entered_iff [OF inv' that, of s] by simp
  have bound: "?t' a < k + 1" if "a \<in> set ?q'" for a
    using stamp [OF that] below by (auto simp: less_Suc_eq)
  from queue_at_step [OF inv step, of b p]
  show "sorted_wrt (<) (map ?t' ?q')"
  proof (elim disjE exE conjE)
    assume same: "?q' = ?q"
    have eq: "map ?t' ?q = map t ?q"
      using stamp unfolding same by (intro map_cong) auto
    show ?thesis unfolding same eq by (rule sorted)
  next
    fix a0 assume "a0 \<in> set ?q" and rem: "?q' = remove1 a0 ?q"
    have sub: "set ?q' \<subseteq> set ?q" unfolding rem by (rule set_remove1_subset)
    have eq: "map ?t' ?q' = map t ?q'"
      using stamp sub by (intro map_cong) auto
    have "sorted_wrt (<) (map t ?q')"
      using sorted unfolding rem sorted_wrt_map by (rule sorted_wrt_remove1)
    then show ?thesis unfolding eq .
  next
    fix a0 assume new: "a0 \<notin> set ?q" and app: "?q' = ?q @ [a0]"
    have old: "?t' a = t a" if "a \<in> set ?q" for a
      using stamp [of a] that app by simp
    have last: "?t' a0 = k" using stamp [of a0] new app by simp
    have "map ?t' ?q = map t ?q"
      using old by (intro map_cong) auto
    then have eq: "map ?t' ?q' = map t ?q @ [k]"
      unfolding app map_append using last by (simp only: list.map)
    have "sorted_wrt (<) (map t ?q @ [k])"
      using sorted below by (auto simp: sorted_wrt_append)
    then show ?thesis unfolding eq .
  qed
  fix a assume "a \<in> set ?q'"
  then show "?t' a < k + 1" by (rule bound)
qed

lemma run_stamped_ok:
  assumes "reachable s" and "stamps_ok k s t"
  shows "\<exists>s' t'. run_stamped xs k s t = Some (s', t') \<and> reachable s' \<and>
           stamps_ok (k + length xs) s' t'"
  using assms
proof (induction xs arbitrary: k s t)
  case Nil
  then show ?case by simp
next
  case (Cons x xs)
  from book_inv_apply_op [OF reachable_book_inv [OF Cons.prems(1)], of x] obtain s1 where
    s1: "apply_op x s = Some s1" by blast
  have r1: "reachable s1" by (rule reachable_apply_op [OF Cons.prems(1) s1])
  have ok1: "stamps_ok (k + 1) s1 (\<lambda>a. if entered s s1 a then k else t a)"
    by (rule stamps_ok_step [OF reachable_book_inv [OF Cons.prems(1)] Cons.prems(2) s1])
  from Cons.IH [OF r1 ok1] s1 show ?case by simp
qed

lemma stamps_ok_init: "stamps_ok 0 OrderBook_init t"
  by (simp add: stamps_ok_def queue_at_def side_of_def side_find_def OrderBook_init_def)


subsection \<open>An aggregate after a change of quantity\<close>

lemma uint_requantify:
  "uint (t + (q - old) :: u64) = (uint t + uint q - uint old) mod 2 ^ 64"
proof -
  have "uint (t + (q - old)) = (uint t + uint (q - old)) mod 2 ^ 64"
    by (simp add: uint_word_ariths)
  also have "uint (q - old) = (uint q - uint old) mod 2 ^ 64"
    by (simp add: uint_word_ariths)
  also have "(uint t + (uint q - uint old) mod 2 ^ 64) mod 2 ^ 64 =
      (uint t + (uint q - uint old)) mod 2 ^ 64"
    by (rule mod_add_right_eq)
  finally show ?thesis by (simp add: algebra_simps)
qed

section \<open>The claims of the specification\<close>

text \<open>
  Claim C1, as the code has it. In every book that a sequence of calls builds from the
  empty book, on both sides: every level of the side map has a queue that is not empty, and
  its aggregate is the sum of the quantities of the records in its queue modulo \<open>2 ^ 64\<close>
  (the sum in \<^verbatim>\<open>uint64_t\<close> arithmetic), hence the sum itself while that is below \<open>2 ^ 64\<close>;
  and the aggregates of the side sum to the quantities of all resting records of that side
  modulo \<open>2 ^ 64\<close>, and to that number itself while it is below \<open>2 ^ 64\<close>. The resting records
  of a side are the live records of that side, named by the Order Index or not.
\<close>

theorem aggregates_match_queues:
  assumes "reachable s"
  shows "(\<forall>e\<in>set (side_of s b).
        orders (snd e) \<noteq> [] \<and>
        total_quantity (snd e) = queue_quantity (slots (order_pool s)) (orders (snd e)) \<and>
        unat (total_quantity (snd e)) =
          queue_units (slots (order_pool s)) (orders (snd e)) mod 2 ^ 64 \<and>
        (queue_units (slots (order_pool s)) (orders (snd e)) < 2 ^ 64 \<longrightarrow>
           unat (total_quantity (snd e)) =
             queue_units (slots (order_pool s)) (orders (snd e)))) \<and>
     side_total (side_of s b) = resting_quantity s b \<and>
     unat (side_total (side_of s b)) = resting_units s b mod 2 ^ 64 \<and>
     (resting_units s b < 2 ^ 64 \<longrightarrow> side_units (side_of s b) = resting_units s b)"
proof (intro conjI ballI impI)
  have inv: "book_inv s" by (rule reachable_book_inv [OF assms])
  show total: "side_total (side_of s b) = resting_quantity s b"
    by (rule side_total_resting [OF inv])
  show "unat (side_total (side_of s b)) = resting_units s b mod 2 ^ 64"
    unfolding total by (rule unat_resting_quantity)
  show "side_units (side_of s b) = resting_units s b" if "resting_units s b < 2 ^ 64"
    using inv that by (rule side_units_resting)
  fix e assume "e \<in> set (side_of s b)"
  then have ok: "level_ok (slots (order_pool s)) b (fst e) (snd e)"
    by (rule book_inv_entry [OF inv])
  then show "orders (snd e) \<noteq> []"
    and sum: "total_quantity (snd e) = queue_quantity (slots (order_pool s)) (orders (snd e))"
    by (simp_all add: level_ok_def)
  show wrapped: "unat (total_quantity (snd e)) =
      queue_units (slots (order_pool s)) (orders (snd e)) mod 2 ^ 64"
    unfolding sum by (rule unat_queue_quantity)
  show "unat (total_quantity (snd e)) = queue_units (slots (order_pool s)) (orders (snd e))"
    if "queue_units (slots (order_pool s)) (orders (snd e)) < 2 ^ 64"
    unfolding wrapped using that by simp
qed

theorem aggregates_match_queues_witness:
  "reachable (add_order order_1003 (add_order order_1002 (add_order order_1001 OrderBook_init))) \<and>
   side_of (add_order order_1003 (add_order order_1002 (add_order order_1001 OrderBook_init)))
       True =
     [(100, \<lparr>price = 100, total_quantity = 250, orders = [0, 2]\<rparr>),
      (199 / 2, \<lparr>price = 199 / 2, total_quantity = 200, orders = [1]\<rparr>)] \<and>
   queue_quantity
     (slots (order_pool
       (add_order order_1003 (add_order order_1002 (add_order order_1001 OrderBook_init)))))
     [0, 2] = 250 \<and>
   resting_quantity
     (add_order order_1003 (add_order order_1002 (add_order order_1001 OrderBook_init))) True =
     450 \<and>
   resting_units
     (add_order order_1003 (add_order order_1002 (add_order order_1001 OrderBook_init))) True =
     450 \<and>
   side_units (side_of
     (add_order order_1003 (add_order order_1002 (add_order order_1001 OrderBook_init))) True) =
     resting_units
       (add_order order_1003 (add_order order_1002 (add_order order_1001 OrderBook_init))) True"
proof -
  let ?s = "add_order order_1003 (add_order order_1002 (add_order order_1001 OrderBook_init))"
  have r: "reachable ?s" by (intro reachable.intros)
  have k: "side_of ?s True =
      [(100, \<lparr>price = 100, total_quantity = 250, orders = [0, 2]\<rparr>),
       (199 / 2, \<lparr>price = 199 / 2, total_quantity = 200, orders = [1]\<rparr>)]"
    by (simp add: side_of_def book_eval)
  have n: "resting_units ?s True = 450"
    by (simp add: resting_units_def resting_ptrs_def queue_units_def pool_bound_def
          node_quantity_def book_eval)
  from aggregates_match_queues [OF r, of True]
  have "queue_quantity (slots (order_pool ?s)) [0, 2] = 250"
    and "resting_quantity ?s True = 450"
    and "side_units (side_of ?s True) = resting_units ?s True"
    unfolding k n by (simp_all add: side_total_def)
  with r k n show ?thesis by (intro conjI)
qed

text \<open>
  The aggregate is not the sum of the quantities once that sum reaches \<open>2 ^ 64\<close>: two buy
  orders at one price with the quantities \<open>2 ^ 64 - 1\<close> and 2 give the aggregate 1, while the
  quantities sum to \<open>2 ^ 64 + 1\<close>.
\<close>

theorem aggregates_match_queues_counterexample:
  "reachable
     (add_order \<lparr>order_id = 2, is_buy = True, price = 100, quantity = 2, timestamp_ns = 2\<rparr>
       (add_order \<lparr>order_id = 1, is_buy = True, price = 100,
                   quantity = 18446744073709551615, timestamp_ns = 1\<rparr>
         OrderBook_init)) \<and>
   bid_levels
     (add_order \<lparr>order_id = 2, is_buy = True, price = 100, quantity = 2, timestamp_ns = 2\<rparr>
       (add_order \<lparr>order_id = 1, is_buy = True, price = 100,
                   quantity = 18446744073709551615, timestamp_ns = 1\<rparr>
         OrderBook_init)) =
     [(100, \<lparr>price = 100, total_quantity = 1, orders = [0, 1]\<rparr>)] \<and>
   queue_units
     (slots (order_pool
       (add_order \<lparr>order_id = 2, is_buy = True, price = 100, quantity = 2, timestamp_ns = 2\<rparr>
         (add_order \<lparr>order_id = 1, is_buy = True, price = 100,
                     quantity = 18446744073709551615, timestamp_ns = 1\<rparr>
           OrderBook_init))))
     [0, 1] = 18446744073709551617"
proof (intro conjI)
  let ?s = "add_order \<lparr>order_id = 2, is_buy = True, price = 100, quantity = 2, timestamp_ns = 2\<rparr>
       (add_order \<lparr>order_id = 1, is_buy = True, price = 100,
                   quantity = 18446744073709551615, timestamp_ns = 1\<rparr>
         OrderBook_init)"
  show "reachable ?s" by (intro reachable.intros)
  show "bid_levels ?s = [(100, \<lparr>price = 100, total_quantity = 1, orders = [0, 1]\<rparr>)]"
    by (simp add: book_eval)
  show "queue_units (slots (order_pool ?s)) [0, 1] = 18446744073709551617"
    by (simp add: queue_units_def node_quantity_def add_order_def OrderBook_init_def
          MemoryPool_init_def allocate_def allocate_block_def construct_def BlockSize_def
          Let_def)
qed

text \<open>
  Claim C2, as the code has it. \<open>get_best_prices\<close> returns a pair of numbers. In a
  reachable book, a side without resting records is a side map without levels; for the bid
  side the first number is then 0, for the ask side the second number is then the largest
  finite double. For a side with resting records the number is the highest bid price, or the
  lowest ask price.
\<close>

theorem best_prices_sentinels:
  assumes "reachable s"
  shows "get_best_prices s =
       (if resting_ptrs s True = [] then 0 else Max (fst ` set (bid_levels s)),
        if resting_ptrs s False = [] then DBL_MAX else Min (fst ` set (ask_levels s)))"
proof -
  have inv: "book_inv s" by (rule reachable_book_inv [OF assms])
  from book_invD(2) [OF inv, of True] have bids: "sorted_wrt (>) (map fst (bid_levels s))"
    by (simp add: cmp_of_def side_of_def)
  from book_invD(2) [OF inv, of False] have asks: "sorted_wrt (<) (map fst (ask_levels s))"
    by (simp add: cmp_of_def side_of_def)
  have eb: "resting_ptrs s True = [] \<longleftrightarrow> bid_levels s = []"
    using side_empty_iff [OF inv, of True] by (simp add: side_of_def)
  have ea: "resting_ptrs s False = [] \<longleftrightarrow> ask_levels s = []"
    using side_empty_iff [OF inv, of False] by (simp add: side_of_def)
  have b: "(case bid_levels s of [] \<Rightarrow> 0 | e # _ \<Rightarrow> fst e) =
      (if bid_levels s = [] then 0 else Max (fst ` set (bid_levels s)))"
  proof (cases "bid_levels s")
    case Nil
    then show ?thesis by simp
  next
    case (Cons e m)
    with bids have "sorted_wrt (>) (fst e # map fst m)" by simp
    from Max_sorted_desc [OF this] Cons show ?thesis by simp
  qed
  have a: "(case ask_levels s of [] \<Rightarrow> DBL_MAX | e # _ \<Rightarrow> fst e) =
      (if ask_levels s = [] then DBL_MAX else Min (fst ` set (ask_levels s)))"
  proof (cases "ask_levels s")
    case Nil
    then show ?thesis by simp
  next
    case (Cons e m)
    with asks have "sorted_wrt (<) (fst e # map fst m)" by simp
    from Min_sorted_asc [OF this] Cons show ?thesis by simp
  qed
  show ?thesis
    unfolding get_best_prices_def Let_def a b eb ea ..
qed

theorem best_prices_sentinels_witness:
  "reachable (add_order order_1002 (add_order order_1001 OrderBook_init)) \<and>
   resting_ptrs (add_order order_1002 (add_order order_1001 OrderBook_init)) True = [0, 1] \<and>
   resting_ptrs (add_order order_1002 (add_order order_1001 OrderBook_init)) False = [] \<and>
   get_best_prices (add_order order_1002 (add_order order_1001 OrderBook_init)) =
     (100, DBL_MAX)"
proof -
  let ?s = "add_order order_1002 (add_order order_1001 OrderBook_init)"
  have r: "reachable ?s" by (intro reachable.intros)
  have p: "order_pool ?s =
      \<lparr>blocks = 1, free_list = [], current_index = 2,
       slots = [0 \<mapsto> \<lparr>order = order_1001\<rparr>, 1 \<mapsto> \<lparr>order = order_1002\<rparr>]\<rparr>"
    by (simp add: add_order_def OrderBook_init_def MemoryPool_init_def allocate_def
          allocate_block_def construct_def BlockSize_def Let_def)
  have u: "[0 ..< 2] = [0, Suc 0]" by (simp add: upt_rec)
  have t: "resting_ptrs ?s True = [0, 1]" and f: "resting_ptrs ?s False = []"
    unfolding resting_ptrs_def p
    by (simp_all add: pool_bound_def BlockSize_def u order_1001_def order_1002_def)
  have k: "bid_levels ?s =
      [(100, \<lparr>price = 100, total_quantity = 100, orders = [0]\<rparr>),
       (199 / 2, \<lparr>price = 199 / 2, total_quantity = 200, orders = [1]\<rparr>)]"
    by (simp add: book_eval)
  from best_prices_sentinels [OF r] have "get_best_prices ?s = (100, DBL_MAX)"
    unfolding t f k by simp
  with r t f show ?thesis by (intro conjI)
qed

text \<open>
  The value returned for an empty side is a price that a resting order can have: the empty
  book and a book with a bid at 0 and an ask at the largest finite double give the same
  pair.
\<close>

theorem best_prices_sentinels_counterexample:
  "bid_levels OrderBook_init = [] \<and> ask_levels OrderBook_init = [] \<and>
   get_best_prices OrderBook_init = (0, DBL_MAX) \<and>
   bid_levels
     (add_order \<lparr>order_id = 2, is_buy = False, price = DBL_MAX, quantity = 1, timestamp_ns = 2\<rparr>
       (add_order \<lparr>order_id = 1, is_buy = True, price = 0, quantity = 1, timestamp_ns = 1\<rparr>
         OrderBook_init)) \<noteq> [] \<and>
   ask_levels
     (add_order \<lparr>order_id = 2, is_buy = False, price = DBL_MAX, quantity = 1, timestamp_ns = 2\<rparr>
       (add_order \<lparr>order_id = 1, is_buy = True, price = 0, quantity = 1, timestamp_ns = 1\<rparr>
         OrderBook_init)) \<noteq> [] \<and>
   get_best_prices
     (add_order \<lparr>order_id = 2, is_buy = False, price = DBL_MAX, quantity = 1, timestamp_ns = 2\<rparr>
       (add_order \<lparr>order_id = 1, is_buy = True, price = 0, quantity = 1, timestamp_ns = 1\<rparr>
         OrderBook_init)) = (0, DBL_MAX)"
  by (simp add: get_best_prices_def add_order_def OrderBook_init_def MemoryPool_init_def
        allocate_def allocate_block_def construct_def add_to_side_def side_find_def
        push_node_def Level_init_def BlockSize_def Let_def)

text \<open>
  Claim C3. For an identifier that the Order Index does not hold, \<open>cancel_order\<close> and
  \<open>amend_order\<close> return false and the book they return is the book they were given,
  in every field. In a reachable book, cancelling a resting identifier returns true, and
  cancelling it again returns false and changes nothing.
\<close>

theorem not_found_no_effect:
  "(order_lookup s oid = None \<longrightarrow>
      cancel_order oid s = Some (False, s) \<and> amend_order oid p q now s = Some (False, s)) \<and>
   (reachable s \<longrightarrow> order_lookup s oid \<noteq> None \<longrightarrow>
      (\<exists>s'. cancel_order oid s = Some (True, s') \<and> cancel_order oid s' = Some (False, s')))"
proof (intro conjI impI)
  assume "order_lookup s oid = None"
  then show "cancel_order oid s = Some (False, s)"
    and "amend_order oid p q now s = Some (False, s)"
    by (simp_all add: cancel_order_unknown amend_order_unknown)
next
  assume r: "reachable s" and "order_lookup s oid \<noteq> None"
  then obtain ptr where idx: "order_lookup s oid = Some ptr" by auto
  from cancel_order_resting [OF reachable_book_inv [OF r] idx] obtain node m where
    c: "cancel_order oid s = Some (True, cancelled s oid ptr node m)" by blast
  have "order_lookup (cancelled s oid ptr node m) oid = None"
    by (simp add: cancelled_fields)
  then have "cancel_order oid (cancelled s oid ptr node m) =
      Some (False, cancelled s oid ptr node m)"
    by (rule cancel_order_unknown)
  with c show "\<exists>s'. cancel_order oid s = Some (True, s') \<and> cancel_order oid s' = Some (False, s')"
    by blast
qed

theorem not_found_no_effect_witness:
  "order_lookup (add_order order_1001 OrderBook_init) 1002 = None \<and>
   cancel_order 1002 (add_order order_1001 OrderBook_init) =
     Some (False, add_order order_1001 OrderBook_init) \<and>
   amend_order 1002 100 500 9000000 (add_order order_1001 OrderBook_init) =
     Some (False, add_order order_1001 OrderBook_init) \<and>
   reachable (add_order order_1001 OrderBook_init) \<and>
   order_lookup (add_order order_1001 OrderBook_init) 1001 \<noteq> None \<and>
   (\<exists>s'. cancel_order 1001 (add_order order_1001 OrderBook_init) = Some (True, s') \<and>
         cancel_order 1001 s' = Some (False, s'))"
proof -
  let ?s = "add_order order_1001 OrderBook_init"
  have r: "reachable ?s" by (intro reachable.intros)
  have n: "order_lookup ?s 1002 = None" by (simp add: book_eval)
  have y: "order_lookup ?s 1001 \<noteq> None" by (simp add: book_eval)
  from not_found_no_effect [of ?s 1002 100 500 9000000] not_found_no_effect [of ?s 1001] r n y
  show ?thesis by blast
qed




text \<open>
  Claim C5, as the code has it. An amend of a resting identifier whose new price is within
  the tolerance of the current price, as \<^verbatim>\<open>amend_order\<close> tests it (the double difference of
  the two prices, in absolute value, does not exceed the double \<^verbatim>\<open>1e-9\<close>), returns true and
  changes the quantity only: both side maps keep their prices, every queue is the same list
  as before (so the record keeps its position), every other level is untouched, the record
  carries the new quantity, and the Order Index is unchanged. The aggregate of the record's
  level becomes the old aggregate plus the new quantity minus the old one modulo \<open>2 ^ 64\<close>
  (\<^verbatim>\<open>uint64_t\<close> arithmetic): a change by exactly the new quantity minus the old one whenever
  that result lies between 0 and \<open>2 ^ 64 - 1\<close>.
\<close>

theorem amend_quantity_only:
  assumes "reachable s"
    and "order_lookup s oid = Some ptr"
    and "slots (order_pool s) ptr = Some node"
    and "\<bar>double_sub (Order.price (order node)) new_price\<bar> \<le> double_1e_9"
  shows "\<exists>s'. amend_order oid new_price q now s = Some (True, s') \<and>
     (\<forall>b. map fst (side_of s' b) = map fst (side_of s b)) \<and>
     (\<forall>b p. queue_at (side_of s' b) p = queue_at (side_of s b) p) \<and>
     ptr \<in> set (queue_at (side_of s (is_buy (order node))) (Order.price (order node))) \<and>
     total_quantity (level_at (side_of s' (is_buy (order node))) (Order.price (order node))) =
       total_quantity (level_at (side_of s (is_buy (order node))) (Order.price (order node)))
         + (q - quantity (order node)) \<and>
     uint (total_quantity
             (level_at (side_of s' (is_buy (order node))) (Order.price (order node)))) =
       (uint (total_quantity
                (level_at (side_of s (is_buy (order node))) (Order.price (order node))))
          + uint q - uint (quantity (order node))) mod 2 ^ 64 \<and>
     (0 \<le> uint (total_quantity
                (level_at (side_of s (is_buy (order node))) (Order.price (order node))))
            + uint q - uint (quantity (order node)) \<and>
      uint (total_quantity
                (level_at (side_of s (is_buy (order node))) (Order.price (order node))))
            + uint q - uint (quantity (order node)) < 2 ^ 64 \<longrightarrow>
      uint (total_quantity
             (level_at (side_of s' (is_buy (order node))) (Order.price (order node)))) =
        uint (total_quantity
                (level_at (side_of s (is_buy (order node))) (Order.price (order node))))
          + uint q - uint (quantity (order node))) \<and>
     (\<forall>b p. \<not> (b = is_buy (order node) \<and> p = Order.price (order node)) \<longrightarrow>
        side_find (side_of s' b) p = side_find (side_of s b) p) \<and>
     slots (order_pool s') =
       (slots (order_pool s))(ptr \<mapsto> node\<lparr>order := (order node)\<lparr>quantity := q\<rparr>\<rparr>) \<and>
     order_lookup s' = order_lookup s"
proof -
  let ?b0 = "is_buy (order node)"
  let ?p0 = "Order.price (order node)"
  let ?s' = "requantified s ptr node q"
  let ?t = "total_quantity (level_at (side_of s ?b0) ?p0)"
  let ?t' = "total_quantity (level_at (side_of ?s' ?b0) ?p0)"
  from assms(4) have near: "\<not> \<bar>double_sub ?p0 new_price\<bar> > double_1e_9" by simp
  from book_inv_resting [OF reachable_book_inv [OF assms(1)] assms(2)] assms(3)
  obtain l0 where
    l0: "side_find (side_of s ?b0) ?p0 = Some l0" and mem: "ptr \<in> set (orders l0)"
    by auto
  note fields = requantified_fields [OF l0]
  have a: "amend_order oid new_price q now s = Some (True, ?s')"
    by (rule amend_order_in_place [OF assms(2,3) near])
  have keys: "\<forall>b. map fst (side_of ?s' b) = map fst (side_of s b)"
    by (simp add: fields keys_side_assign)
  have queues: "\<forall>b p. queue_at (side_of ?s' b) p = queue_at (side_of s b) p"
    by (simp add: queue_at_requantified [OF l0])
  have here: "ptr \<in> set (queue_at (side_of s ?b0) ?p0)"
    using l0 mem by (simp add: queue_at_def)
  have total: "?t' = ?t + (q - quantity (order node))"
    using l0 by (simp add: level_at_def side_find_requantified [OF l0])
  have wrapped: "uint ?t' = (uint ?t + uint q - uint (quantity (order node))) mod 2 ^ 64"
    unfolding total by (rule uint_requantify)
  have exact: "0 \<le> uint ?t + uint q - uint (quantity (order node)) \<and>
      uint ?t + uint q - uint (quantity (order node)) < 2 ^ 64 \<longrightarrow>
      uint ?t' = uint ?t + uint q - uint (quantity (order node))"
    unfolding wrapped by simp
  have others: "\<forall>b p. \<not> (b = ?b0 \<and> p = ?p0) \<longrightarrow>
      side_find (side_of ?s' b) p = side_find (side_of s b) p"
    by (auto simp: side_find_requantified [OF l0])
  have store: "slots (order_pool ?s') =
      (slots (order_pool s))(ptr \<mapsto> node\<lparr>order := (order node)\<lparr>quantity := q\<rparr>\<rparr>)"
    by (simp add: fields construct_def)
  have index: "order_lookup ?s' = order_lookup s"
    by (simp add: fields)
  from a keys queues here total wrapped exact others store index show ?thesis
    by (intro exI conjI)
qed


theorem amend_quantity_only_witness:
  "reachable
     (add_order \<lparr>order_id = 7, is_buy = True, price = 0, quantity = 5, timestamp_ns = 1\<rparr>
        OrderBook_init) \<and>
   order_lookup
     (add_order \<lparr>order_id = 7, is_buy = True, price = 0, quantity = 5, timestamp_ns = 1\<rparr>
        OrderBook_init) 7 = Some 0 \<and>
   slots (order_pool
     (add_order \<lparr>order_id = 7, is_buy = True, price = 0, quantity = 5, timestamp_ns = 1\<rparr>
        OrderBook_init)) 0 =
     Some \<lparr>order = \<lparr>order_id = 7, is_buy = True, price = 0, quantity = 5,
                     timestamp_ns = 1\<rparr>\<rparr> \<and>
   \<bar>double_sub 0 double_1e_9\<bar> \<le> double_1e_9 \<and>
   (\<exists>s'. amend_order 7 double_1e_9 8 9000000
            (add_order \<lparr>order_id = 7, is_buy = True, price = 0, quantity = 5,
                        timestamp_ns = 1\<rparr> OrderBook_init) = Some (True, s') \<and>
         map fst (side_of s' True) = [0] \<and>
         queue_at (side_of s' True) 0 = [0] \<and>
         total_quantity (level_at (side_of s' True) 0) = 8 \<and>
         uint (total_quantity (level_at (side_of s' True) 0)) = 8)"
proof -
  let ?o = "\<lparr>order_id = 7, is_buy = True, price = 0, quantity = 5, timestamp_ns = 1\<rparr>"
  let ?s = "add_order ?o OrderBook_init"
  have r: "reachable ?s" by (intro reachable.intros)
  have i: "order_lookup ?s 7 = Some 0" by (simp add: book_eval)
  have n: "slots (order_pool ?s) 0 = Some \<lparr>order = ?o\<rparr>" by (simp add: book_eval)
  have near: "\<bar>double_sub 0 double_1e_9\<bar> \<le> double_1e_9"
    by (simp add: book_eval)
  then have near': "\<bar>double_sub (Order.price (order \<lparr>order = ?o\<rparr>)) double_1e_9\<bar> \<le> double_1e_9"
    by simp
  have b: "bid_levels ?s = [(0, \<lparr>price = 0, total_quantity = 5, orders = [0]\<rparr>)]"
    by (simp add: book_eval)
  have k: "map fst (side_of ?s True) = [0]"
    and q: "queue_at (side_of ?s True) 0 = [0]"
    and t: "total_quantity (level_at (side_of ?s True) 0) = 5"
    by (simp_all add: side_of_def queue_at_def level_at_def side_find_def b)
  have o: "is_buy (order \<lparr>order = ?o\<rparr>) = True"
    "Order.price (order \<lparr>order = ?o\<rparr>) = 0"
    "quantity (order \<lparr>order = ?o\<rparr>) = 5"
    by simp_all
  have "\<exists>s'. amend_order 7 double_1e_9 8 9000000 ?s = Some (True, s') \<and>
         map fst (side_of s' True) = [0] \<and>
         queue_at (side_of s' True) 0 = [0] \<and>
         total_quantity (level_at (side_of s' True) 0) = 8 \<and>
         uint (total_quantity (level_at (side_of s' True) 0)) = 8"
    using amend_quantity_only [OF r i n near', of 8 9000000, unfolded o]
  proof (elim exE conjE)
    fix s'
    assume a: "amend_order 7 double_1e_9 8 9000000 ?s = Some (True, s')"
      and ks: "\<forall>b. map fst (side_of s' b) = map fst (side_of ?s b)"
      and qs: "\<forall>b p. queue_at (side_of s' b) p = queue_at (side_of ?s b) p"
      and ts: "total_quantity (level_at (side_of s' True) 0) =
                 total_quantity (level_at (side_of ?s True) 0) + (8 - 5)"
      and us: "uint (total_quantity (level_at (side_of s' True) 0)) =
                 (uint (total_quantity (level_at (side_of ?s True) 0)) + uint (8::u64)
                    - uint (5::u64)) mod 2 ^ 64"
    from ks have "map fst (side_of s' True) = [0]" by (simp add: k)
    moreover from qs have "queue_at (side_of s' True) 0 = [0]" by (simp add: q)
    moreover from ts have "total_quantity (level_at (side_of s' True) 0) = 8"
      by (simp add: t)
    moreover from us have "uint (total_quantity (level_at (side_of s' True) 0)) = 8"
      by (simp add: t)
    ultimately show ?thesis using a by (intro exI conjI)
  qed
  with r i n near show ?thesis by (intro conjI)
qed

text \<open>
  Where the aggregate has wrapped, it does not change by the new quantity minus the old
  one: with two buy orders of the quantities \<open>2 ^ 64 - 1\<close> and 5 at one price the aggregate
  is 4, and amending the second order to the quantity 0 at the same price makes it
  \<open>2 ^ 64 - 1\<close>, a change by \<open>2 ^ 64 - 5\<close> and not by \<open>0 - 5\<close>.
\<close>

theorem amend_quantity_only_counterexample:
  "reachable
     (add_order \<lparr>order_id = 2, is_buy = True, price = 100, quantity = 5, timestamp_ns = 2\<rparr>
       (add_order \<lparr>order_id = 1, is_buy = True, price = 100,
                   quantity = 18446744073709551615, timestamp_ns = 1\<rparr>
         OrderBook_init)) \<and>
   bid_levels
     (add_order \<lparr>order_id = 2, is_buy = True, price = 100, quantity = 5, timestamp_ns = 2\<rparr>
       (add_order \<lparr>order_id = 1, is_buy = True, price = 100,
                   quantity = 18446744073709551615, timestamp_ns = 1\<rparr>
         OrderBook_init)) =
     [(100, \<lparr>price = 100, total_quantity = 4, orders = [0, 1]\<rparr>)] \<and>
   map_option fst
     (amend_order 2 100 0 9000000
       (add_order \<lparr>order_id = 2, is_buy = True, price = 100, quantity = 5, timestamp_ns = 2\<rparr>
         (add_order \<lparr>order_id = 1, is_buy = True, price = 100,
                     quantity = 18446744073709551615, timestamp_ns = 1\<rparr>
           OrderBook_init))) = Some True \<and>
   map_option bid_levels
     (apply_op (Amend 2 100 0 9000000)
       (add_order \<lparr>order_id = 2, is_buy = True, price = 100, quantity = 5, timestamp_ns = 2\<rparr>
         (add_order \<lparr>order_id = 1, is_buy = True, price = 100,
                     quantity = 18446744073709551615, timestamp_ns = 1\<rparr>
           OrderBook_init))) =
     Some [(100, \<lparr>price = 100, total_quantity = 18446744073709551615, orders = [0, 1]\<rparr>)] \<and>
   uint (18446744073709551615 :: u64) - uint (4 :: u64) \<noteq> uint (0 :: u64) - uint (5 :: u64)"
proof (intro conjI)
  let ?s = "add_order \<lparr>order_id = 2, is_buy = True, price = 100, quantity = 5, timestamp_ns = 2\<rparr>
       (add_order \<lparr>order_id = 1, is_buy = True, price = 100,
                   quantity = 18446744073709551615, timestamp_ns = 1\<rparr>
         OrderBook_init)"
  show "reachable ?s" by (intro reachable.intros)
  show "bid_levels ?s = [(100, \<lparr>price = 100, total_quantity = 4, orders = [0, 1]\<rparr>)]"
    by (simp add: book_eval)
  show "map_option fst (amend_order 2 100 0 9000000 ?s) = Some True"
    by (simp add: book_eval)
  show "map_option bid_levels (apply_op (Amend 2 100 0 9000000) ?s) =
      Some [(100, \<lparr>price = 100, total_quantity = 18446744073709551615, orders = [0, 1]\<rparr>)]"
    by (simp add: book_eval)
  show "uint (18446744073709551615 :: u64) - uint (4 :: u64) \<noteq> uint (0 :: u64) - uint (5 :: u64)"
    by simp
qed

text \<open>
  Claim C6. Run any sequence of operations from the empty book, stamping each record with
  the number of the operation at which it last entered the queue of a level (its add, or
  its re-add by a price-changing amend). The run never faults, and in the book it builds the
  stamps increase strictly along every queue from front to back: of two records resting in
  the same level, the one that arrived earlier comes first. Moreover any further operation
  leaves each queue as it is, or removes one record from it, or appends one new record at
  its tail; none reorders a queue.
\<close>

theorem fifo_arrival_order:
  "\<exists>s t. run_stamped xs 0 OrderBook_init (\<lambda>a. 0) = Some (s, t) \<and> reachable s \<and>
     (\<forall>b. \<forall>e\<in>set (side_of s b). sorted_wrt (<) (map t (orders (snd e)))) \<and>
     (\<forall>x s'. apply_op x s = Some s' \<longrightarrow>
        (\<forall>b p. queue_at (side_of s' b) p = queue_at (side_of s b) p \<or>
           (\<exists>a. a \<in> set (queue_at (side_of s b) p) \<and>
                queue_at (side_of s' b) p = remove1 a (queue_at (side_of s b) p)) \<or>
           (\<exists>a. a \<notin> set (queue_at (side_of s b) p) \<and>
                queue_at (side_of s' b) p = queue_at (side_of s b) p @ [a])))"
proof -
  from run_stamped_ok [OF reachable.init stamps_ok_init, of xs "\<lambda>a. 0"] obtain s t where
    run: "run_stamped xs 0 OrderBook_init (\<lambda>a. 0) = Some (s, t)"
    and r: "reachable s" and ok: "stamps_ok (0 + length xs) s t"
    by blast
  have inv: "book_inv s" by (rule reachable_book_inv [OF r])
  have fifo: "sorted_wrt (<) (map t (orders (snd e)))" if "e \<in> set (side_of s b)" for b e
  proof -
    have "distinct (map fst (side_of s b))"
      by (rule sorted_keys_distinct [OF book_invD(2) [OF inv]])
    moreover from that have "(fst e, snd e) \<in> set (side_of s b)" by simp
    ultimately have "side_find (side_of s b) (fst e) = Some (snd e)"
      by (rule side_find_is_Some)
    then have "queue_at (side_of s b) (fst e) = orders (snd e)"
      by (simp add: queue_at_def)
    with ok show ?thesis
      unfolding stamps_ok_def by metis
  qed
  have step: "queue_at (side_of s' b) p = queue_at (side_of s b) p \<or>
           (\<exists>a. a \<in> set (queue_at (side_of s b) p) \<and>
                queue_at (side_of s' b) p = remove1 a (queue_at (side_of s b) p)) \<or>
           (\<exists>a. a \<notin> set (queue_at (side_of s b) p) \<and>
                queue_at (side_of s' b) p = queue_at (side_of s b) p @ [a])"
    if "apply_op x s = Some s'" for x s' b p
    by (rule queue_at_step [OF inv that])
  show ?thesis
  proof (intro exI conjI allI ballI impI)
    show "run_stamped xs 0 OrderBook_init (\<lambda>a. 0) = Some (s, t)" by (rule run)
    show "reachable s" by (rule r)
  next
    fix b e assume "e \<in> set (side_of s b)"
    then show "sorted_wrt (<) (map t (orders (snd e)))" by (rule fifo)
  next
    fix x s' b p assume "apply_op x s = Some s'"
    then show "queue_at (side_of s' b) p = queue_at (side_of s b) p \<or>
           (\<exists>a. a \<in> set (queue_at (side_of s b) p) \<and>
                queue_at (side_of s' b) p = remove1 a (queue_at (side_of s b) p)) \<or>
           (\<exists>a. a \<notin> set (queue_at (side_of s b) p) \<and>
                queue_at (side_of s' b) p = queue_at (side_of s b) p @ [a])"
      by (rule step)
  qed
qed

theorem fifo_arrival_order_witness:
  "\<exists>s t. run_stamped [Add order_1001, Add order_1002, Amend 1002 100 200 9000000] 0
            OrderBook_init (\<lambda>a. 0) = Some (s, t) \<and>
     bid_levels s = [(100, \<lparr>price = 100, total_quantity = 300, orders = [0, 1]\<rparr>)] \<and>
     t 0 < t 1"
proof -
  let ?xs = "[Add order_1001, Add order_1002, Amend 1002 100 200 9000000]"
  have b: "map_option (\<lambda>r. bid_levels (fst r))
        (run_stamped ?xs 0 OrderBook_init (\<lambda>a. 0)) =
      Some [(100, \<lparr>price = 100, total_quantity = 300, orders = [0, 1]\<rparr>)]"
    by (simp add: book_eval)
  from fifo_arrival_order [of ?xs] obtain s t where
    run: "run_stamped ?xs 0 OrderBook_init (\<lambda>a. 0) = Some (s, t)"
    and fifo: "\<forall>b. \<forall>e\<in>set (side_of s b). sorted_wrt (<) (map t (orders (snd e)))"
    by blast
  from b run have k: "bid_levels s = [(100, \<lparr>price = 100, total_quantity = 300, orders = [0, 1]\<rparr>)]"
    by simp
  from fifo have "\<forall>e\<in>set (side_of s True). sorted_wrt (<) (map t (orders (snd e)))" ..
  then have "t 0 < t 1" by (simp add: side_of_def k)
  with run k show ?thesis by (intro exI conjI)
qed

text \<open>
  Claim C7. In a reachable book the prices of the bid side map, in iteration order, are
  strictly descending and those of the ask side map strictly ascending, so no side has two
  levels of one price; the snapshot of any depth lists its levels in the same strict order.
\<close>

theorem side_maps_strictly_ordered:
  assumes "reachable s"
  shows "sorted_wrt (>) (map fst (bid_levels s)) \<and>
     sorted_wrt (<) (map fst (ask_levels s)) \<and>
     distinct (map fst (bid_levels s)) \<and> distinct (map fst (ask_levels s)) \<and>
     sorted_wrt (>) (map PriceLevel.price (fst (get_snapshot depth s))) \<and>
     sorted_wrt (<) (map PriceLevel.price (snd (get_snapshot depth s)))"
proof -
  have inv: "book_inv s" by (rule reachable_book_inv [OF assms])
  from book_invD(2) [OF inv, of True] have bids: "sorted_wrt (>) (map fst (bid_levels s))"
    by (simp add: cmp_of_def side_of_def)
  from book_invD(2) [OF inv, of False] have asks: "sorted_wrt (<) (map fst (ask_levels s))"
    by (simp add: cmp_of_def side_of_def)
  from sorted_keys_distinct [OF book_invD(2) [OF inv, of True]]
  have dbids: "distinct (map fst (bid_levels s))" by (simp add: side_of_def)
  from sorted_keys_distinct [OF book_invD(2) [OF inv, of False]]
  have dasks: "distinct (map fst (ask_levels s))" by (simp add: side_of_def)
  have sbids: "sorted_wrt (>) (map PriceLevel.price (fst (get_snapshot depth s)))"
    using bids by (simp add: get_snapshot_def price_snapshot_side sorted_wrt_take)
  have sasks: "sorted_wrt (<) (map PriceLevel.price (snd (get_snapshot depth s)))"
    using asks by (simp add: get_snapshot_def price_snapshot_side sorted_wrt_take)
  from bids asks dbids dasks sbids sasks show ?thesis by (intro conjI)
qed

theorem side_maps_strictly_ordered_witness:
  "reachable (add_order order_1003 (add_order order_1002 (add_order order_1001 OrderBook_init))) \<and>
   map fst (bid_levels
     (add_order order_1003 (add_order order_1002 (add_order order_1001 OrderBook_init)))) =
     [100, 199 / 2] \<and>
   sorted_wrt (>) (map fst (bid_levels
     (add_order order_1003 (add_order order_1002 (add_order order_1001 OrderBook_init))))) \<and>
   sorted_wrt (>) (map PriceLevel.price (fst (get_snapshot 1
     (add_order order_1003 (add_order order_1002 (add_order order_1001 OrderBook_init))))))"
proof -
  let ?s = "add_order order_1003 (add_order order_1002 (add_order order_1001 OrderBook_init))"
  have r: "reachable ?s" by (intro reachable.intros)
  have k: "map fst (bid_levels ?s) = [100, 199 / 2]" by (simp add: book_eval)
  from side_maps_strictly_ordered [OF r, of 1] r k show ?thesis by (intro conjI) simp_all
qed

text \<open>
  Claim C8. In a reachable book, adding an order whose identifier is not in the Order
  Index and cancelling that identifier at once succeeds and gives back both side maps
  (the levels, their aggregates and their queues), the Order Index and the live records of
  the book as they were. The counters and the free list of the pool are not part of the
  equality.
\<close>

theorem add_then_cancel_restores:
  assumes "reachable s" and "order_lookup s (order_id ord) = None"
  shows "\<exists>s'. cancel_order (order_id ord) (add_order ord s) = Some (True, s') \<and>
     bid_levels s' = bid_levels s \<and> ask_levels s' = ask_levels s \<and>
     order_lookup s' = order_lookup s \<and>
     slots (order_pool s') = slots (order_pool s)"
proof -
  let ?ptr = "fst (allocate (order_pool s))"
  let ?node = "\<lparr>order = ord\<rparr>"
  let ?s1 = "add_order ord s"
  let ?b = "is_buy ord"
  have inv: "book_inv s" by (rule reachable_book_inv [OF assms(1)])
  have fresh: "slots (order_pool s) ?ptr = None"
    by (rule allocate_fresh [OF book_invD(1) [OF inv]])
  have idx: "order_lookup ?s1 (order_id ord) = Some ?ptr"
    by (simp add: add_order_fields)
  have node: "slots (order_pool ?s1) ?ptr = Some ?node"
    by (simp add: slots_add_order)
  have keys: "distinct (map fst (side_of s ?b))"
    by (rule sorted_keys_distinct [OF book_invD(2) [OF inv]])
  have old: "PriceLevel.price l = Order.price (order ?node) \<and> orders l \<noteq> [] \<and>
      ?ptr \<notin> set (orders l)"
    if "side_find (side_of s ?b) (Order.price (order ?node)) = Some l" for l
  proof -
    from book_invD(3) [OF inv that] fresh show ?thesis
      by (auto simp: level_ok_def)
  qed
  have "remove_from_side (add_to_side (cmp_of ?b) (side_of s ?b) ?ptr ?node) ?ptr ?node =
      Some (side_of s ?b)"
    using keys old by (rule remove_add_to_side)
  then have rm: "remove_from_side (side_of ?s1 (is_buy (order ?node))) ?ptr ?node =
      Some (side_of s ?b)"
    by (simp add: add_order_fields)
  let ?s' = "cancelled ?s1 (order_id ord) ?ptr ?node (side_of s ?b)"
  have c: "cancel_order (order_id ord) ?s1 = Some (True, ?s')"
    by (rule cancel_order_Some [OF idx node rm])
  have sides: "side_of ?s' b = side_of s b" for b
    by (simp add: cancelled_fields add_order_fields)
  have bids: "bid_levels ?s' = bid_levels s"
    using sides [of True] by (simp add: side_of_def)
  have asks: "ask_levels ?s' = ask_levels s"
    using sides [of False] by (simp add: side_of_def)
  have index: "order_lookup ?s' = order_lookup s"
    using assms(2) by (auto simp: cancelled_fields add_order_fields fun_eq_iff)
  have store: "slots (order_pool ?s') = slots (order_pool s)"
    using fresh by (auto simp: slots_cancelled slots_add_order fun_eq_iff)
  from c bids asks index store show ?thesis by (intro exI conjI)
qed

theorem add_then_cancel_restores_witness:
  "reachable (add_order order_1001 OrderBook_init) \<and>
   order_lookup (add_order order_1001 OrderBook_init) (order_id order_1003) = None \<and>
   (\<exists>s'. cancel_order (order_id order_1003)
            (add_order order_1003 (add_order order_1001 OrderBook_init)) = Some (True, s') \<and>
         bid_levels s' = [(100, \<lparr>price = 100, total_quantity = 100, orders = [0]\<rparr>)] \<and>
         ask_levels s' = [] \<and>
         order_lookup s' = order_lookup (add_order order_1001 OrderBook_init))"
proof -
  let ?s = "add_order order_1001 OrderBook_init"
  have r: "reachable ?s" by (intro reachable.intros)
  have i: "order_lookup ?s (order_id order_1003) = None" by (simp add: book_eval)
  have b: "bid_levels ?s = [(100, \<lparr>price = 100, total_quantity = 100, orders = [0]\<rparr>)]"
    and a: "ask_levels ?s = []"
    by (simp_all add: book_eval)
  from add_then_cancel_restores [OF r i] r i show ?thesis
    unfolding b a by blast
qed

text \<open>
  Claim C9. In a reachable book where an identifier is resting, \<open>add_order\<close> with an
  order of the same identifier returns a book (it has no failing path) in which the Order
  Index names a new record holding the new order, at another address than the previous
  record; the previous record is still alive and still in the queue of its level, whose
  aggregate is the sum over that queue and so still counts it; and no entry of the Order
  Index names the previous record any more.
\<close>

theorem duplicate_add_orphans:
  assumes "reachable s"
    and "order_lookup s (order_id ord) = Some ptr"
    and "slots (order_pool s) ptr = Some node"
  shows "\<exists>ptr'. ptr' \<noteq> ptr \<and>
     order_lookup (add_order ord s) (order_id ord) = Some ptr' \<and>
     slots (order_pool (add_order ord s)) ptr' = Some \<lparr>order = ord\<rparr> \<and>
     slots (order_pool (add_order ord s)) ptr = Some node \<and>
     ptr \<in> set (queue_at (side_of (add_order ord s) (is_buy (order node)))
                   (Order.price (order node))) \<and>
     total_quantity (level_at (side_of (add_order ord s) (is_buy (order node)))
                       (Order.price (order node))) =
       queue_quantity (slots (order_pool (add_order ord s)))
         (queue_at (side_of (add_order ord s) (is_buy (order node)))
            (Order.price (order node))) \<and>
     (\<forall>oid. order_lookup (add_order ord s) oid \<noteq> Some ptr) \<and>
     reachable (add_order ord s)"
proof -
  let ?ptr' = "fst (allocate (order_pool s))"
  let ?s' = "add_order ord s"
  have inv: "book_inv s" by (rule reachable_book_inv [OF assms(1)])
  have r': "reachable ?s'" by (rule reachable.add [OF assms(1)])
  have inv': "book_inv ?s'" by (rule reachable_book_inv [OF r'])
  have fresh: "slots (order_pool s) ?ptr' = None"
    by (rule allocate_fresh [OF book_invD(1) [OF inv]])
  with assms(3) have ne: "?ptr' \<noteq> ptr" by auto
  have idx: "order_lookup ?s' (order_id ord) = Some ?ptr'"
    by (simp add: add_order_fields)
  have new: "slots (order_pool ?s') ?ptr' = Some \<lparr>order = ord\<rparr>"
    by (simp add: slots_add_order)
  have prev: "slots (order_pool ?s') ptr = Some node"
    using ne assms(3) by (simp add: slots_add_order)
  from book_invD(4) [OF inv' prev] obtain l where
    l: "side_find (side_of ?s' (is_buy (order node))) (Order.price (order node)) = Some l"
    and mem: "ptr \<in> set (orders l)" by blast
  have queued: "ptr \<in> set (queue_at (side_of ?s' (is_buy (order node)))
      (Order.price (order node)))"
    using l mem by (simp add: queue_at_def)
  have counted: "total_quantity (level_at (side_of ?s' (is_buy (order node)))
        (Order.price (order node))) =
      queue_quantity (slots (order_pool ?s'))
        (queue_at (side_of ?s' (is_buy (order node))) (Order.price (order node)))"
    using book_invD(3) [OF inv' l] l by (simp add: level_ok_def level_at_def queue_at_def)
  have orphan: "order_lookup ?s' oid \<noteq> Some ptr" for oid
  proof
    assume named: "order_lookup ?s' oid = Some ptr"
    with idx ne have "oid \<noteq> order_id ord" by auto
    with named have "order_lookup s oid = Some ptr" by (simp add: add_order_fields)
    from book_invD(5) [OF inv this] book_invD(5) [OF inv assms(2)] assms(3)
    have "oid = order_id ord" by auto
    with \<open>oid \<noteq> order_id ord\<close> show False by simp
  qed
  from ne idx new prev queued counted orphan r' show ?thesis
    by (intro exI conjI allI)
qed

theorem duplicate_add_orphans_witness:
  "reachable (add_order order_1001 OrderBook_init) \<and>
   order_lookup (add_order order_1001 OrderBook_init) (order_id order_1001) = Some 0 \<and>
   slots (order_pool (add_order order_1001 OrderBook_init)) 0 = Some \<lparr>order = order_1001\<rparr> \<and>
   (\<exists>ptr'. ptr' \<noteq> 0 \<and>
      order_lookup (add_order order_1001 (add_order order_1001 OrderBook_init)) 1001 =
        Some ptr' \<and>
      slots (order_pool (add_order order_1001 (add_order order_1001 OrderBook_init))) 0 =
        Some \<lparr>order = order_1001\<rparr> \<and>
      0 \<in> set (queue_at (side_of (add_order order_1001 (add_order order_1001 OrderBook_init))
                            True) 100) \<and>
      (\<forall>oid. order_lookup (add_order order_1001 (add_order order_1001 OrderBook_init)) oid
             \<noteq> Some 0))"
proof -
  let ?s = "add_order order_1001 OrderBook_init"
  have r: "reachable ?s" by (intro reachable.intros)
  have i: "order_lookup ?s (order_id order_1001) = Some 0" by (simp add: book_eval)
  have n: "slots (order_pool ?s) 0 = Some \<lparr>order = order_1001\<rparr>" by (simp add: book_eval)
  have o: "is_buy (order \<lparr>order = order_1001\<rparr>) = True"
    "Order.price (order \<lparr>order = order_1001\<rparr>) = 100"
    "order_id order_1001 = 1001"
    by (simp_all add: order_1001_def)
  have "\<exists>ptr'. ptr' \<noteq> 0 \<and>
      order_lookup (add_order order_1001 ?s) 1001 = Some ptr' \<and>
      slots (order_pool (add_order order_1001 ?s)) 0 = Some \<lparr>order = order_1001\<rparr> \<and>
      0 \<in> set (queue_at (side_of (add_order order_1001 ?s) True) 100) \<and>
      (\<forall>oid. order_lookup (add_order order_1001 ?s) oid \<noteq> Some 0)"
    using duplicate_add_orphans [OF r i n, unfolded o]
  proof (elim exE conjE)
    fix ptr'
    assume "ptr' \<noteq> 0"
      and "order_lookup (add_order order_1001 ?s) 1001 = Some ptr'"
      and "slots (order_pool (add_order order_1001 ?s)) 0 = Some \<lparr>order = order_1001\<rparr>"
      and "0 \<in> set (queue_at (side_of (add_order order_1001 ?s) True) 100)"
      and "\<forall>oid. order_lookup (add_order order_1001 ?s) oid \<noteq> Some 0"
    then show ?thesis by (intro exI conjI)
  qed
  with r i n show ?thesis by (intro conjI)
qed



end
